theory Spec2Isabelle
  imports Main "HOL-Library.Product_Lexorder"
begin

section \<open>Exceptions and Python helpers\<close>

text \<open>The Python exceptions the module can raise, by class. A function that may raise
  returns \<open>error + 'a\<close>, with \<open>Inl\<close> for the exception.\<close>

datatype error = ValueError | TypeError | IndexError | ZeroDivisionError

text \<open>Python list indexing \<^verbatim>\<open>xs[i]\<close>: a negative index counts from the end, an index out
  of range raises \<^verbatim>\<open>IndexError\<close>.\<close>

definition getitem :: "'a list \<Rightarrow> int \<Rightarrow> error + 'a" where
  "getitem xs i =
     (if 0 \<le> i \<and> i < int (length xs) then Inr (xs ! nat i)
      else if i < 0 \<and> - int (length xs) \<le> i then Inr (xs ! nat (int (length xs) + i))
      else Inl IndexError)"

text \<open>\<^verbatim>\<open>range(start, stop, step)\<close> for a positive step.\<close>

definition range3 :: "int \<Rightarrow> int \<Rightarrow> int \<Rightarrow> int list" where
  "range3 start stop step =
     map (\<lambda>n. start + step * int n) [0..<nat ((stop - start + step - 1) div step)]"

text \<open>\<^verbatim>\<open>int.bit_length()\<close> of a nonnegative integer.\<close>

fun bit_length_nat :: "nat \<Rightarrow> nat" where
  "bit_length_nat n = (if n = 0 then 0 else Suc (bit_length_nat (n div 2)))"

declare bit_length_nat.simps [simp del]

definition bit_length :: "int \<Rightarrow> int" where
  "bit_length n = int (bit_length_nat (nat \<bar>n\<bar>))"

text \<open>\<^verbatim>\<open>[int(i) for i in bin(m)[2:]]\<close> for \<open>m \<ge> 0\<close>: the binary digits, most significant
  first; \<^verbatim>\<open>bin(0)\<close> is \<^verbatim>\<open>'0b0'\<close>, one digit. Every caller rejects a negative \<open>m\<close> first.\<close>

function bin_digits :: "int \<Rightarrow> int list" where
  "bin_digits m = (if m < 2 then [m] else bin_digits (m div 2) @ [m mod 2])"
  by pat_completeness auto
termination
  by (relation "measure nat") auto

declare bin_digits.simps [simp del]

text \<open>\<^verbatim>\<open>s.zfill(n)\<close> on a digit string: zeros on the left up to length \<open>n\<close>.\<close>

definition zfill :: "int list \<Rightarrow> nat \<Rightarrow> int list" where
  "zfill ds n = replicate (n - length ds) 0 @ ds"

section \<open>Field arithmetic (module \<^verbatim>\<open>numbertheory\<close>) and the constants of \<^verbatim>\<open>alias\<close>\<close>

type_synonym Point = "int \<times> int"
type_synonym JacPoint = "int \<times> int \<times> int"

text \<open>The constants \<^verbatim>\<open>INF\<close> and \<^verbatim>\<open>INFJ\<close> of the module \<^verbatim>\<open>alias\<close>, which is not among the
  source files: the library's affine point at infinity \<open>(7, 0)\<close> and its Jacobian form
  \<open>(7, 0, 0)\<close>. The curve code only needs \<open>y = 0\<close> resp. \<open>Z = 0\<close> of them, and the tests of
  the repository need a nonzero \<open>X\<close> in \<^verbatim>\<open>INFJ\<close>: \<^verbatim>\<open>test_add_double_jac\<close> asserts that
  \<^verbatim>\<open>_add_jac(GJ, INFJ)\<close> equals \<^verbatim>\<open>GJ\<close>, which a triple \<open>(0, 0, 0)\<close> does not satisfy (lemmas
  \<open>add_jac_zero_triple_right\<close> and \<open>test_add_double_jac_infinity\<close> below). \<^verbatim>\<open>INF\<close> is written
  \<open>INF_aff\<close>.\<close>

definition INF_aff :: Point where
  "INF_aff = (7, 0)"

definition INFJ :: JacPoint where
  "INFJ = (7, 0, 0)"

text \<open>Modelled from the spec: \<^verbatim>\<open>mod_inv(a, p)\<close> of the module \<^verbatim>\<open>numbertheory\<close>, which is
  not among the source files: the modular inverse, failing when there is none (for a prime
  \<open>p\<close>: when \<open>a \<equiv> 0 (mod p)\<close>). The inverse returned is the one in \<open>[1, p)\<close>.\<close>

definition mod_inv :: "int \<Rightarrow> int \<Rightarrow> error + int" where
  "mod_inv a m =
     (case find (\<lambda>i. a * i mod m = 1) [1..m - 1] of
        None \<Rightarrow> Inl ValueError
      | Some i \<Rightarrow> Inr i)"

text \<open>Modelled from the spec: \<^verbatim>\<open>mod_sqrt(a, p)\<close> of the module \<^verbatim>\<open>numbertheory\<close>: a root
  \<open>r\<close> with \<open>r\<^sup>2 \<equiv> a (mod p)\<close>, failing when \<open>a\<close> is a non-residue; for \<open>p \<equiv> 3 (mod 4)\<close> by
  the direct formula \<open>a ^ ((p + 1) / 4)\<close>, otherwise (Tonelli-Shanks in the spec) some
  root, here the least one.\<close>

definition mod_sqrt :: "int \<Rightarrow> int \<Rightarrow> error + int" where
  "mod_sqrt a m =
     (if m mod 4 = 3 then
        (let r = (a mod m) ^ nat ((m + 1) div 4) mod m
         in if r * r mod m = a mod m then Inr r else Inl ValueError)
      else
        (case find (\<lambda>r. r * r mod m = a mod m) [0..m - 1] of
           None \<Rightarrow> Inl ValueError
         | Some r \<Rightarrow> Inr r))"

text \<open>Modelled from the spec: \<^verbatim>\<open>legendre_symbol(a, p)\<close> of the module \<^verbatim>\<open>numbertheory\<close>:
  \<open>1\<close> for a quadratic residue, \<open>-1\<close> otherwise, \<open>0\<close> when \<open>a \<equiv> 0 (mod p)\<close>.\<close>

definition legendre_symbol :: "int \<Rightarrow> int \<Rightarrow> int" where
  "legendre_symbol a m =
     (if a mod m = 0 then 0
      else if list_ex (\<lambda>r. r * r mod m = a mod m) [1..m - 1] then 1
      else - 1)"

section \<open>The class \<^verbatim>\<open>CurveGroup\<close>\<close>

text \<open>The attributes \<^verbatim>\<open>p\<close>, \<^verbatim>\<open>_a\<close>, \<^verbatim>\<open>_b\<close>, \<^verbatim>\<open>psize\<close> and \<^verbatim>\<open>pIsThreeModFour\<close> of an
  instance; the first three are written \<open>cg_p\<close>, \<open>cg_a\<close>, \<open>cg_b\<close>.\<close>

record CurveGroup =
  cg_p :: int
  cg_a :: int
  cg_b :: int
  psize :: int
  pIsThreeModFour :: bool

text \<open>\<^verbatim>\<open>CurveGroup.__init__\<close>, on integer arguments. The primality test is the Fermat test
  to base 2. \<^verbatim>\<open>ceil(plen / 8)\<close> divides in floating point, exactly for every bit length
  below \<open>2\<^sup>5\<^sup>3\<close>; it is written in integers.\<close>

definition CurveGroup_init :: "int \<Rightarrow> int \<Rightarrow> int \<Rightarrow> error + CurveGroup" where
  "CurveGroup_init p a b =
     (if p < 2 \<or> p mod 2 = 0 \<or> 2 ^ nat (p - 1) mod p \<noteq> 1 then Inl ValueError
      else if a < 0 then Inl ValueError
      else if p \<le> a then Inl ValueError
      else if b < 0 then Inl ValueError
      else if p \<le> b then Inl ValueError
      else if (4 * a * a * a + 27 * b * b) mod p = 0 then Inl ValueError
      else Inr \<lparr>cg_p = p, cg_a = a, cg_b = b,
                psize = (bit_length p + 7) div 8,
                pIsThreeModFour = (p mod 4 = 3)\<rparr>)"

text \<open>\<^verbatim>\<open>_jac_from_aff\<close>: \<^verbatim>\<open>Q[0], Q[1], 1 if Q[1] else 0\<close>.\<close>

definition jac_from_aff :: "Point \<Rightarrow> JacPoint" where
  "jac_from_aff Q = (fst Q, snd Q, if snd Q \<noteq> 0 then 1 else 0)"

text \<open>\<^verbatim>\<open>negate\<close> and \<^verbatim>\<open>negate_jac\<close>. The \<^verbatim>\<open>len(Q)\<close> tests always pass on the tuple types.\<close>

definition negate :: "CurveGroup \<Rightarrow> Point \<Rightarrow> Point" where
  "negate ec Q = (fst Q, (cg_p ec - snd Q) mod cg_p ec)"

definition negate_jac :: "CurveGroup \<Rightarrow> JacPoint \<Rightarrow> JacPoint" where
  "negate_jac ec Q =
     (case Q of (X, Y, Z) \<Rightarrow> (X, (cg_p ec - Y) mod cg_p ec, Z))"

text \<open>\<^verbatim>\<open>_aff_from_jac\<close>.\<close>

definition aff_from_jac :: "CurveGroup \<Rightarrow> JacPoint \<Rightarrow> error + Point" where
  "aff_from_jac ec Q =
     (case Q of (QX, QY, QZ) \<Rightarrow>
        if QZ = 0 then Inr INF_aff
        else
          (let Z2 = QZ * QZ in
           case mod_inv Z2 (cg_p ec) of
             Inl e \<Rightarrow> Inl e
           | Inr i2 \<Rightarrow>
               (case mod_inv (Z2 * QZ) (cg_p ec) of
                  Inl e \<Rightarrow> Inl e
                | Inr i3 \<Rightarrow> Inr ((QX * i2) mod cg_p ec, (QY * i3) mod cg_p ec))))"

text \<open>\<^verbatim>\<open>_jac_equality\<close>.\<close>

definition jac_equality :: "CurveGroup \<Rightarrow> JacPoint \<Rightarrow> JacPoint \<Rightarrow> bool" where
  "jac_equality ec QJ PJ =
     (case QJ of (QX, QY, QZ) \<Rightarrow> case PJ of (PX, PY, PZ) \<Rightarrow>
        (let PJ2 = PZ * PZ; QJ2 = QZ * QZ in
         if QX * PJ2 mod cg_p ec \<noteq> PX * QJ2 mod cg_p ec then False
         else
           (let PJ3 = PJ2 * PZ; QJ3 = QJ2 * QZ
            in QY * PJ3 mod cg_p ec = PY * QJ3 mod cg_p ec)))"

text \<open>\<^verbatim>\<open>_double_jac\<close>.\<close>

definition double_jac :: "CurveGroup \<Rightarrow> JacPoint \<Rightarrow> JacPoint" where
  "double_jac ec Q =
     (case Q of (QX, QY, QZ) \<Rightarrow>
        (let QZ2 = QZ * QZ;
             QY2 = QY * QY;
             W = 3 * QX * QX + cg_a ec * QZ2 * QZ2;
             V = 4 * QX * QY2;
             X = W * W - 2 * V;
             Y = W * (V - X) - 8 * QY2 * QY2;
             Z = 2 * QY * QZ
         in (X mod cg_p ec, Y mod cg_p ec, Z mod cg_p ec)))"

text \<open>\<^verbatim>\<open>_add_jac\<close>: the doubling branch returns first; otherwise the incomplete addition
  is computed and the result selected from \<^verbatim>\<open>ret_values\<close> by the index
  \<^verbatim>\<open>(Q[2] == 0) + (R[2] == 0) * 2\<close>.\<close>

definition add_jac :: "CurveGroup \<Rightarrow> JacPoint \<Rightarrow> JacPoint \<Rightarrow> JacPoint" where
  "add_jac ec Q R =
     (case Q of (QX, QY, QZ) \<Rightarrow> case R of (RX, RY, RZ) \<Rightarrow>
        (let RZ2 = RZ * RZ;
             RZ3 = RZ2 * RZ;
             QZ2 = QZ * QZ;
             QZ3 = QZ2 * QZ;
             M = QX * RZ2;
             N = RX * QZ2;
             T = QY * RZ3;
             U = RY * QZ3
         in
           if M mod cg_p ec = N mod cg_p ec \<and> T mod cg_p ec = U mod cg_p ec then
             (let QY2 = QY * QY;
                  W = 3 * QX * QX + cg_a ec * QZ2 * QZ2;
                  V = 4 * QX * QY2;
                  X = W * W - 2 * V;
                  Y = W * (V - X) - 8 * QY2 * QY2;
                  Z = 2 * QY * QZ
              in (X mod cg_p ec, Y mod cg_p ec, Z mod cg_p ec))
           else
             (let W = U - T;
                  V = N - M;
                  V2 = V * V;
                  V3 = V2 * V;
                  MV2 = M * V2;
                  X = (W * W - V3 - 2 * MV2) mod cg_p ec;
                  Y = (W * (MV2 - X) - T * V3) mod cg_p ec;
                  Z = (V * QZ * RZ) mod cg_p ec;
                  ret_values = [(X, Y, Z), R, Q, INFJ];
                  i = (if QZ = 0 then 1 else 0) + (if RZ = 0 then 1 else 0) * 2
              in ret_values ! i)))"

text \<open>\<^verbatim>\<open>_double_aff\<close> and \<^verbatim>\<open>_add_aff\<close>.\<close>

definition double_aff :: "CurveGroup \<Rightarrow> Point \<Rightarrow> error + Point" where
  "double_aff ec Q =
     (if snd Q = 0 then Inr INF_aff
      else
        (case mod_inv (2 * snd Q) (cg_p ec) of
           Inl e \<Rightarrow> Inl e
         | Inr i \<Rightarrow>
             (let lam = (3 * fst Q * fst Q + cg_a ec) * i;
                  x = lam * lam - fst Q - fst Q;
                  y = lam * (fst Q - x) - snd Q
              in Inr (x mod cg_p ec, y mod cg_p ec))))"

definition add_aff :: "CurveGroup \<Rightarrow> Point \<Rightarrow> Point \<Rightarrow> error + Point" where
  "add_aff ec Q R =
     (if snd R = 0 then Inr Q
      else if snd Q = 0 then Inr R
      else if fst R = fst Q then
        (if snd R = snd Q then double_aff ec R else Inr INF_aff)
      else
        (case mod_inv (fst R - fst Q) (cg_p ec) of
           Inl e \<Rightarrow> Inl e
         | Inr i \<Rightarrow>
             (let lam = (snd R - snd Q) * i;
                  x = lam * lam - fst Q - fst R;
                  y = lam * (fst Q - x) - snd Q
              in Inr (x mod cg_p ec, y mod cg_p ec))))"

text \<open>\<^verbatim>\<open>_y2\<close>, \<^verbatim>\<open>is_on_curve\<close>, \<^verbatim>\<open>require_on_curve\<close> and \<^verbatim>\<open>add\<close>.\<close>

definition y2 :: "CurveGroup \<Rightarrow> int \<Rightarrow> int" where
  "y2 ec x = ((x ^ 2 + cg_a ec) * x + cg_b ec) mod cg_p ec"

definition is_on_curve :: "CurveGroup \<Rightarrow> Point \<Rightarrow> error + bool" where
  "is_on_curve ec Q =
     (if snd Q = 0 then Inr True
      else if \<not> (0 < snd Q \<and> snd Q < cg_p ec) then Inl ValueError
      else Inr (y2 ec (fst Q) = snd Q * snd Q mod cg_p ec))"

definition require_on_curve :: "CurveGroup \<Rightarrow> Point \<Rightarrow> error + unit" where
  "require_on_curve ec Q =
     (case is_on_curve ec Q of
        Inl e \<Rightarrow> Inl e
      | Inr ok \<Rightarrow> if \<not> ok then Inl ValueError else Inr ())"

definition add :: "CurveGroup \<Rightarrow> Point \<Rightarrow> Point \<Rightarrow> error + Point" where
  "add ec Q1 Q2 =
     (case require_on_curve ec Q1 of
        Inl e \<Rightarrow> Inl e
      | Inr _ \<Rightarrow>
          (case require_on_curve ec Q2 of
             Inl e \<Rightarrow> Inl e
           | Inr _ \<Rightarrow> add_aff ec Q1 Q2))"

text \<open>The method \<^verbatim>\<open>y\<close> (written \<open>y_of\<close>), \<^verbatim>\<open>require_p_ThreeModFour\<close> and
  \<^verbatim>\<open>y_quadratic_residue\<close>. Any exception of \<^verbatim>\<open>mod_sqrt\<close> is raised again as a
  \<^verbatim>\<open>ValueError\<close>.\<close>

definition y_of :: "CurveGroup \<Rightarrow> int \<Rightarrow> error + int" where
  "y_of ec x =
     (if \<not> (0 \<le> x \<and> x < cg_p ec) then Inl ValueError
      else
        (case mod_sqrt (y2 ec x) (cg_p ec) of
           Inl e \<Rightarrow> Inl ValueError
         | Inr r \<Rightarrow> Inr r))"

definition require_p_ThreeModFour :: "CurveGroup \<Rightarrow> error + unit" where
  "require_p_ThreeModFour ec = (if \<not> pIsThreeModFour ec then Inl ValueError else Inr ())"

definition y_quadratic_residue :: "CurveGroup \<Rightarrow> int \<Rightarrow> int \<Rightarrow> error + int" where
  "y_quadratic_residue ec x quad_res =
     (if quad_res \<notin> {0, 1} then Inl ValueError
      else
        (case require_p_ThreeModFour ec of
           Inl e \<Rightarrow> Inl e
         | Inr _ \<Rightarrow>
             (case y_of ec x of
                Inl e \<Rightarrow> Inl e
              | Inr root \<Rightarrow>
                  (let legendre = legendre_symbol root (cg_p ec)
                   in Inr (if legendre = quad_res then root else cg_p ec - root)))))"

section \<open>Base decomposition\<close>

text \<open>\<^verbatim>\<open>convert_number_to_base\<close>: the loop \<^verbatim>\<open>while i or not digits\<close> with
  \<^verbatim>\<open>i, idx = divmod(i, base)\<close>. Python's \<^verbatim>\<open>divmod\<close> floors, as \<open>div\<close> and \<open>mod\<close> on
  \<open>int\<close> do, and raises on a zero divisor. The loop need not terminate (a negative
  \<open>i\<close> stays at \<open>-1\<close>), so not returning is the value \<open>None\<close>.\<close>

partial_function (option) convert_loop :: "int \<Rightarrow> int \<Rightarrow> int list \<Rightarrow> (error + int list) option" where
  "convert_loop i base digits =
     (if i \<noteq> 0 \<or> digits = [] then
        (if base = 0 then Some (Inl ZeroDivisionError)
         else convert_loop (i div base) base (digits @ [i mod base]))
      else Some (Inr (rev digits)))"

declare convert_loop.simps [code]

definition convert_number_to_base :: "int \<Rightarrow> int \<Rightarrow> (error + int list) option" where
  "convert_number_to_base i base = convert_loop i base []"

section \<open>Scalar multiplication\<close>

text \<open>The index \<^verbatim>\<open>not (m & 1)\<close>: \<^verbatim>\<open>True\<close> is 1 and \<^verbatim>\<open>False\<close> is 0.\<close>

definition not_index :: "int \<Rightarrow> nat" where
  "not_index b = (if b = 0 then 1 else 0)"

text \<open>\<^verbatim>\<open>_mult_aff\<close>: \<^verbatim>\<open>R = [INF, Q]\<close>, \<^verbatim>\<open>R[0] = R[m & 1]\<close>, \<^verbatim>\<open>m >>= 1\<close>, then the loop
  \<^verbatim>\<open>while m > 0\<close>.\<close>

function mult_aff_loop :: "int \<Rightarrow> Point \<Rightarrow> Point list \<Rightarrow> CurveGroup \<Rightarrow> error + Point" where
  "mult_aff_loop m Q R ec =
     (if m > 0 then
        (case double_aff ec Q of
           Inl e \<Rightarrow> Inl e
         | Inr Q' \<Rightarrow>
             (case add_aff ec (R ! 0) Q' of
                Inl e \<Rightarrow> Inl e
              | Inr S \<Rightarrow>
                  (let R1 = R[1 := S];
                       R2 = R1[0 := R1 ! nat (m mod 2)]
                   in mult_aff_loop (m div 2) Q' R2 ec)))
      else Inr (R ! 0))"
  by pat_completeness auto
termination
  by (relation "measure (\<lambda>(m, Q, R, ec). nat m)") auto

declare mult_aff_loop.simps [simp del]

definition mult_aff :: "int \<Rightarrow> Point \<Rightarrow> CurveGroup \<Rightarrow> error + Point" where
  "mult_aff m Q ec =
     (if m < 0 then Inl ValueError
      else
        (let R = [INF_aff, Q];
             R' = R[0 := R ! nat (m mod 2)]
         in mult_aff_loop (m div 2) Q R' ec))"

text \<open>\<^verbatim>\<open>_mult_jac\<close>: \<^verbatim>\<open>R = [INFJ, Q]\<close>, \<^verbatim>\<open>R[not (m & 1)] = Q\<close>, \<^verbatim>\<open>m >>= 1\<close>, then the loop.\<close>

function mult_jac_loop :: "int \<Rightarrow> JacPoint \<Rightarrow> JacPoint list \<Rightarrow> CurveGroup \<Rightarrow> JacPoint" where
  "mult_jac_loop m Q R ec =
     (if m > 0 then
        (let Q' = double_jac ec Q;
             R' = R[not_index (m mod 2) := add_jac ec (R ! 0) Q']
         in mult_jac_loop (m div 2) Q' R' ec)
      else R ! 0)"
  by pat_completeness auto
termination
  by (relation "measure (\<lambda>(m, Q, R, ec). nat m)") auto

declare mult_jac_loop.simps [simp del]

definition mult_jac :: "int \<Rightarrow> JacPoint \<Rightarrow> CurveGroup \<Rightarrow> error + JacPoint" where
  "mult_jac m Q ec =
     (if m < 0 then Inl ValueError
      else
        (let R = [INFJ, Q];
             R' = R[not_index (m mod 2) := Q]
         in Inr (mult_jac_loop (m div 2) Q R' ec)))"

text \<open>The body shared by the table loops of \<^verbatim>\<open>multiples\<close>, \<^verbatim>\<open>cached_multiples\<close> and
  \<^verbatim>\<open>cached_multiples_fixwind\<close>:
  \<^verbatim>\<open>T.append(ec._double_jac(T[(i - 1) // 2])); T.append(ec._add_jac(T[-1], Q))\<close>.\<close>

definition multiples_step :: "CurveGroup \<Rightarrow> JacPoint \<Rightarrow> JacPoint list \<Rightarrow> int \<Rightarrow> JacPoint list" where
  "multiples_step ec Q T i =
     (let T1 = T @ [double_jac ec (T ! nat ((i - 1) div 2))]
      in T1 @ [add_jac ec (last T1) Q])"

text \<open>\<^verbatim>\<open>multiples\<close>; the argument \<^verbatim>\<open>size\<close> is written \<open>sz\<close>.\<close>

definition multiples :: "JacPoint \<Rightarrow> int \<Rightarrow> CurveGroup \<Rightarrow> error + JacPoint list" where
  "multiples Q sz ec =
     (if sz < 2 then Inl ValueError
      else
        (let k = sz div 2;
             odd = sz mod 2;
             T = foldl (multiples_step ec Q) [INFJ, Q] (range3 3 (k * 2) 2)
         in Inr (if odd \<noteq> 0 then T @ [double_jac ec (T ! nat ((sz - 1) div 2))] else T)))"

text \<open>\<^verbatim>\<open>cached_multiples\<close>, with \<^verbatim>\<open>_MAX_W = 5\<close>. The cache does not change the value.\<close>

definition cached_multiples :: "JacPoint \<Rightarrow> CurveGroup \<Rightarrow> JacPoint list" where
  "cached_multiples Q ec = foldl (multiples_step ec Q) [INFJ, Q] (range3 3 (2 ^ 5) 2)"

text \<open>\<^verbatim>\<open>cached_multiples_fixwind\<close>: the outer loop runs \<^verbatim>\<open>(ec.psize * 8) // w + 1\<close> times.
  A zero \<open>w\<close> raises in the floor division; for a negative \<open>w\<close> the power \<^verbatim>\<open>2 ** w\<close> is a
  float, which \<^verbatim>\<open>range\<close> refuses when the outer loop runs at all.\<close>

fun fixwind_loop :: "nat \<Rightarrow> CurveGroup \<Rightarrow> int \<Rightarrow> JacPoint list list \<Rightarrow> JacPoint \<Rightarrow> JacPoint list list" where
  "fixwind_loop 0 ec w T K = T"
| "fixwind_loop (Suc n) ec w T K =
     (let sublist = foldl (multiples_step ec K) [INFJ, K] (range3 3 (2 ^ nat w) 2);
          K' = double_jac ec (sublist ! (2 ^ nat (w - 1)))
      in fixwind_loop n ec w (T @ [sublist]) K')"

definition cached_multiples_fixwind :: "JacPoint \<Rightarrow> CurveGroup \<Rightarrow> int \<Rightarrow> error + JacPoint list list" where
  "cached_multiples_fixwind Q ec w =
     (if w = 0 then Inl ZeroDivisionError
      else if w < 0 \<and> 0 < (psize ec * 8) div w + 1 then Inl TypeError
      else Inr (fixwind_loop (nat ((psize ec * 8) div w + 1)) ec w [] Q))"

text \<open>\<^verbatim>\<open>_mult_mont_ladder\<close>.\<close>

fun ladder_loop :: "int list \<Rightarrow> JacPoint list \<Rightarrow> CurveGroup \<Rightarrow> JacPoint list" where
  "ladder_loop [] R ec = R"
| "ladder_loop (i # is) R ec =
     (let R1 = R[not_index i := add_jac ec (R ! nat i) (R ! not_index i)];
          R2 = R1[nat i := double_jac ec (R1 ! nat i)]
      in ladder_loop is R2 ec)"

definition mult_mont_ladder :: "int \<Rightarrow> JacPoint \<Rightarrow> CurveGroup \<Rightarrow> error + JacPoint" where
  "mult_mont_ladder m Q ec =
     (if m < 0 then Inl ValueError
      else Inr (ladder_loop (bin_digits m) [INFJ, Q] ec ! 0))"

text \<open>\<^verbatim>\<open>_mult_base_3\<close>.\<close>

fun base_3_loop :: "int list \<Rightarrow> JacPoint list \<Rightarrow> JacPoint \<Rightarrow> CurveGroup \<Rightarrow> error + JacPoint" where
  "base_3_loop [] T R ec = Inr R"
| "base_3_loop (i # is) T R ec =
     (let R2 = double_jac ec R;
          R3 = add_jac ec R2 R
      in case getitem T i of
           Inl e \<Rightarrow> Inl e
         | Inr Ti \<Rightarrow> base_3_loop is T (add_jac ec R3 Ti) ec)"

definition mult_base_3 :: "int \<Rightarrow> JacPoint \<Rightarrow> CurveGroup \<Rightarrow> (error + JacPoint) option" where
  "mult_base_3 m Q ec =
     (if m < 0 then Some (Inl ValueError)
      else
        (let T = [INFJ, Q, double_jac ec Q] in
         case convert_number_to_base m 3 of
           None \<Rightarrow> None
         | Some (Inl e) \<Rightarrow> Some (Inl e)
         | Some (Inr digits) \<Rightarrow>
             (case getitem digits 0 of
                Inl e \<Rightarrow> Some (Inl e)
              | Inr d0 \<Rightarrow>
                  (case getitem T d0 of
                     Inl e \<Rightarrow> Some (Inl e)
                   | Inr R \<Rightarrow> Some (base_3_loop (tl digits) T R ec)))))"

text \<open>\<^verbatim>\<open>_mult_fixed_window\<close>.\<close>

fun fixed_window_loop :: "int list \<Rightarrow> JacPoint list \<Rightarrow> JacPoint \<Rightarrow> CurveGroup \<Rightarrow> int \<Rightarrow> error + JacPoint" where
  "fixed_window_loop [] T R ec w = Inr R"
| "fixed_window_loop (i # is) T R ec w =
     (let R' = (double_jac ec ^^ nat w) R
      in case getitem T i of
           Inl e \<Rightarrow> Inl e
         | Inr Ti \<Rightarrow> fixed_window_loop is T (add_jac ec R' Ti) ec w)"

definition mult_fixed_window :: "int \<Rightarrow> JacPoint \<Rightarrow> CurveGroup \<Rightarrow> int \<Rightarrow> bool \<Rightarrow> (error + JacPoint) option" where
  "mult_fixed_window m Q ec w cached =
     (if m < 0 then Some (Inl ValueError)
      else if w \<le> 0 then Some (Inl ValueError)
      else
        (case (if cached then Inr (cached_multiples Q ec) else multiples Q (2 ^ nat w) ec) of
           Inl e \<Rightarrow> Some (Inl e)
         | Inr T \<Rightarrow>
             (case convert_number_to_base m (2 ^ nat w) of
                None \<Rightarrow> None
              | Some (Inl e) \<Rightarrow> Some (Inl e)
              | Some (Inr digits) \<Rightarrow>
                  (case getitem digits 0 of
                     Inl e \<Rightarrow> Some (Inl e)
                   | Inr d0 \<Rightarrow>
                       (case getitem T d0 of
                          Inl e \<Rightarrow> Some (Inl e)
                        | Inr R \<Rightarrow> Some (fixed_window_loop (tl digits) T R ec w))))))"

text \<open>\<^verbatim>\<open>_mult_fixed_window_cached\<close>: \<^verbatim>\<open>k = len(digits) - 1\<close>, \<^verbatim>\<open>R = T[k][digits[0]]\<close>, then
  for \<^verbatim>\<open>i in range(1, len(digits))\<close>: \<^verbatim>\<open>k -= 1; R = ec._add_jac(R, T[k][digits[i]])\<close>.\<close>

fun fixed_window_cached_loop ::
  "int list \<Rightarrow> int list \<Rightarrow> JacPoint list list \<Rightarrow> int \<Rightarrow> JacPoint \<Rightarrow> CurveGroup \<Rightarrow> error + JacPoint" where
  "fixed_window_cached_loop [] digits T k R ec = Inr R"
| "fixed_window_cached_loop (i # is) digits T k R ec =
     (let k' = k - 1
      in case getitem T k' of
           Inl e \<Rightarrow> Inl e
         | Inr Tk \<Rightarrow>
             (case getitem digits i of
                Inl e \<Rightarrow> Inl e
              | Inr d \<Rightarrow>
                  (case getitem Tk d of
                     Inl e \<Rightarrow> Inl e
                   | Inr P \<Rightarrow> fixed_window_cached_loop is digits T k' (add_jac ec R P) ec)))"

definition mult_fixed_window_cached :: "int \<Rightarrow> JacPoint \<Rightarrow> CurveGroup \<Rightarrow> int \<Rightarrow> (error + JacPoint) option" where
  "mult_fixed_window_cached m Q ec w =
     (if m < 0 then Some (Inl ValueError)
      else if w \<le> 0 then Some (Inl ValueError)
      else
        (case cached_multiples_fixwind Q ec w of
           Inl e \<Rightarrow> Some (Inl e)
         | Inr T \<Rightarrow>
             (case convert_number_to_base m (2 ^ nat w) of
                None \<Rightarrow> None
              | Some (Inl e) \<Rightarrow> Some (Inl e)
              | Some (Inr digits) \<Rightarrow>
                  (let k = int (length digits) - 1 in
                   case getitem T k of
                     Inl e \<Rightarrow> Some (Inl e)
                   | Inr Tk \<Rightarrow>
                       (case getitem digits 0 of
                          Inl e \<Rightarrow> Some (Inl e)
                        | Inr d0 \<Rightarrow>
                            (case getitem Tk d0 of
                               Inl e \<Rightarrow> Some (Inl e)
                             | Inr R \<Rightarrow>
                                 Some (fixed_window_cached_loop [1..int (length digits) - 1]
                                         digits T k R ec)))))))"

text \<open>\<^verbatim>\<open>_mult = _mult_fixed_window\<close>, called with the defaults \<^verbatim>\<open>w = 4\<close>, \<^verbatim>\<open>cached = False\<close>.\<close>

definition mult :: "int \<Rightarrow> JacPoint \<Rightarrow> CurveGroup \<Rightarrow> (error + JacPoint) option" where
  "mult m Q ec = mult_fixed_window m Q ec 4 False"

text \<open>\<^verbatim>\<open>_double_mult\<close> (Shamir-Strauss).\<close>

fun double_mult_loop :: "int list \<Rightarrow> JacPoint list \<Rightarrow> JacPoint \<Rightarrow> CurveGroup \<Rightarrow> error + JacPoint" where
  "double_mult_loop [] T R ec = Inr R"
| "double_mult_loop (i # is) T R ec =
     (let R' = double_jac ec R
      in case getitem T i of
           Inl e \<Rightarrow> Inl e
         | Inr Ti \<Rightarrow> double_mult_loop is T (add_jac ec R' Ti) ec)"

definition double_mult :: "int \<Rightarrow> JacPoint \<Rightarrow> int \<Rightarrow> JacPoint \<Rightarrow> CurveGroup \<Rightarrow> error + JacPoint" where
  "double_mult u HJ v QJ ec =
     (if u < 0 then Inl ValueError
      else if v < 0 then Inl ValueError
      else
        (let T = [INFJ, HJ, QJ, add_jac ec HJ QJ];
             ui = bin_digits u;
             vi = zfill (bin_digits v) (length ui);
             ui' = zfill ui (length vi);
             digits = map (\<lambda>(j, k). j + 2 * k) (zip ui' vi)
         in case getitem digits 0 of
              Inl e \<Rightarrow> Inl e
            | Inr d0 \<Rightarrow>
                (case getitem T d0 of
                   Inl e \<Rightarrow> Inl e
                 | Inr R \<Rightarrow> double_mult_loop (tl digits) T R ec)))"

text \<open>\<^verbatim>\<open>_multi_mult\<close> (Bos-Coster). The standard library's \<^verbatim>\<open>heapq\<close> keeps a priority
  queue in the list; what the function observes of it is that \<^verbatim>\<open>heappop\<close> removes and
  returns the least tuple, tuples being compared lexicographically. The queue is kept here
  as the sorted list of its elements: \<^verbatim>\<open>heapify\<close> sorts, \<^verbatim>\<open>heappush\<close> inserts in order,
  \<^verbatim>\<open>heappop\<close> takes the head.\<close>

fun multi_mult_collect :: "int list \<Rightarrow> JacPoint list \<Rightarrow> (int \<times> JacPoint) list \<Rightarrow> error + (int \<times> JacPoint) list" where
  "multi_mult_collect (n # ns) (PJ # PJs) x =
     (if n = 0 then multi_mult_collect ns PJs x
      else if n < 0 then Inl ValueError
      else multi_mult_collect ns PJs (x @ [(- n, PJ)]))"
| "multi_mult_collect _ _ x = Inr x"

partial_function (option) multi_mult_loop :: "CurveGroup \<Rightarrow> (int \<times> JacPoint) list \<Rightarrow> (int \<times> JacPoint) list option" where
  "multi_mult_loop ec x =
     (case x of
        np1 # np2 # x2 \<Rightarrow>
          (let n1 = - fst np1; p1 = snd np1;
               n2 = - fst np2; p2 = snd np2;
               p2' = add_jac ec p1 p2;
               n1' = n1 - n2;
               x3 = (if n1' > 0 then insort (- n1', p1) x2 else x2);
               x4 = insort (- n2, p2') x3
           in multi_mult_loop ec x4)
      | _ \<Rightarrow> Some x)"

declare multi_mult_loop.simps [code]

definition multi_mult :: "int list \<Rightarrow> JacPoint list \<Rightarrow> CurveGroup \<Rightarrow> (error + JacPoint) option" where
  "multi_mult scalars JPoints ec =
     (if length scalars \<noteq> length JPoints then Some (Inl ValueError)
      else
        (case multi_mult_collect scalars JPoints [] of
           Inl e \<Rightarrow> Some (Inl e)
         | Inr x \<Rightarrow>
             if x = [] then Some (Inr INFJ)
             else
               (case multi_mult_loop ec (sort x) of
                  None \<Rightarrow> None
                | Some x' \<Rightarrow>
                    (case x' of
                       [] \<Rightarrow> Some (Inl IndexError)
                     | np1 # _ \<Rightarrow> mult (- fst np1) (snd np1) ec))))"

section \<open>The test curves\<close>

text \<open>The curve \<^verbatim>\<open>ec13_19\<close> of the tests, \<^verbatim>\<open>Curve(13, 0, 2, (1, 9), 19, 1, False)\<close>, as the
  \<^verbatim>\<open>CurveGroup\<close> it extends, and \<^verbatim>\<open>ec23_31\<close>, \<^verbatim>\<open>Curve(23, 5, 1, (0, 1), 31, 1, False)\<close>.\<close>

definition ec13_19 :: CurveGroup where
  "ec13_19 = \<lparr>cg_p = 13, cg_a = 0, cg_b = 2, psize = 1, pIsThreeModFour = False\<rparr>"

definition ec23_31 :: CurveGroup where
  "ec23_31 = \<lparr>cg_p = 23, cg_a = 5, cg_b = 1, psize = 1, pIsThreeModFour = True\<rparr>"

text \<open>A curve that is not among those of the tests: \<^verbatim>\<open>CurveGroup(7, 0, 3)\<close>, the curve
  \<open>y\<^sup>2 = x\<^sup>3 + 3\<close> over the field of 7 elements. It has 13 points, none of them with
  \<open>y = 0\<close>, and \<open>(1, 2)\<close> generates it.\<close>

definition ec7_13 :: CurveGroup where
  "ec7_13 = \<lparr>cg_p = 7, cg_a = 0, cg_b = 3, psize = 1, pIsThreeModFour = True\<rparr>"

section \<open>Notions used to state the properties\<close>

text \<open>The value of a big-endian digit list in a base.\<close>

definition digits_value :: "int \<Rightarrow> int list \<Rightarrow> int" where
  "digits_value base ds = foldl (\<lambda>v d. v * base + d) 0 ds"

text \<open>Primality of the field modulus, by trial division. The constructor only runs the Fermat
  test to base 2; the properties that need a field are stated for a prime \<open>p\<close>.\<close>

definition is_prime :: "int \<Rightarrow> bool" where
  "is_prime p = (1 < p \<and> list_all (\<lambda>d. p mod d \<noteq> 0) [2..p - 1])"

text \<open>The points of the curve in the textbook sense: \<open>None\<close> is the point at infinity,
  \<open>Some (x, y)\<close> a finite point with coordinates in \<open>[0, p)\<close>.\<close>

type_synonym ec_point = "(int \<times> int) option"

definition on_curve :: "CurveGroup \<Rightarrow> ec_point \<Rightarrow> bool" where
  "on_curve ec P =
     (case P of
        None \<Rightarrow> True
      | Some (x, y) \<Rightarrow> 0 \<le> x \<and> x < cg_p ec \<and> 0 \<le> y \<and> y < cg_p ec \<and> y * y mod cg_p ec = y2 ec x)"

text \<open>The inverse modulo a prime \<open>p\<close>, as the power \<open>a ^ (p - 2)\<close>.\<close>

definition finv :: "int \<Rightarrow> int \<Rightarrow> int" where
  "finv p a = a ^ nat (p - 2) mod p"

text \<open>The chord-and-tangent law: the tangent rule for doubling (a point with \<open>y = 0\<close> doubles
  to infinity), and for two finite points the opposite of the third intersection of the
  line through them; two distinct points with the same \<open>x\<close> are opposite.\<close>

definition ec_double :: "CurveGroup \<Rightarrow> ec_point \<Rightarrow> ec_point" where
  "ec_double ec P =
     (case P of
        None \<Rightarrow> None
      | Some (x, y) \<Rightarrow>
          if y = 0 then None
          else
            (let l = (3 * x * x + cg_a ec) * finv (cg_p ec) (2 * y) mod cg_p ec;
                 x3 = (l * l - 2 * x) mod cg_p ec
             in Some (x3, (l * (x - x3) - y) mod cg_p ec)))"

definition ec_add :: "CurveGroup \<Rightarrow> ec_point \<Rightarrow> ec_point \<Rightarrow> ec_point" where
  "ec_add ec P R =
     (case P of
        None \<Rightarrow> R
      | Some (xa, ya) \<Rightarrow>
          (case R of
             None \<Rightarrow> P
           | Some (xb, yb) \<Rightarrow>
               if xa = xb then (if ya = yb then ec_double ec P else None)
               else
                 (let l = (yb - ya) * finv (cg_p ec) (xb - xa) mod cg_p ec;
                      x3 = (l * l - xa - xb) mod cg_p ec
                  in Some (x3, (l * (xa - x3) - ya) mod cg_p ec))))"

text \<open>The multiple \<open>k \<cdot> P\<close>, as the sum of \<open>k\<close> copies of \<open>P\<close>, and as it is computed along
  the binary expansion of \<open>k\<close>: \<open>2 \<cdot> ((k / 2) \<cdot> P)\<close> for an even \<open>k\<close> and \<open>(k - 1) \<cdot> P + P\<close>
  for an odd one. The two agree wherever the addition is associative (lemma
  \<open>ec_mult_repeated_addition\<close>).\<close>

primrec ec_times :: "CurveGroup \<Rightarrow> nat \<Rightarrow> ec_point \<Rightarrow> ec_point" where
  "ec_times ec 0 P = None"
| "ec_times ec (Suc k) P = ec_add ec (ec_times ec k P) P"

fun ec_mult :: "CurveGroup \<Rightarrow> nat \<Rightarrow> ec_point \<Rightarrow> ec_point" where
  "ec_mult ec k P =
     (if k = 0 then None
      else if k = 1 then P
      else if even k then ec_double ec (ec_mult ec (k div 2) P)
      else ec_add ec (ec_mult ec (k - 1) P) P)"

declare ec_mult.simps [simp del]

text \<open>A Jacobian triple \<open>(X, Y, Z)\<close> represents the point at infinity when \<open>Z = 0\<close>, and the
  finite point \<open>(x, y)\<close> when \<open>Z\<close> is invertible modulo \<open>p\<close>, \<open>X \<equiv> x Z\<^sup>2\<close> and \<open>Y \<equiv> y Z\<^sup>3\<close>. A
  triple with \<open>Z = 0\<close> is a proper point of the curve when \<open>Y\<^sup>2 \<equiv> X\<^sup>3\<close> and \<open>X\<close> is not a
  multiple of \<open>p\<close>.\<close>

definition represents :: "CurveGroup \<Rightarrow> JacPoint \<Rightarrow> ec_point \<Rightarrow> bool" where
  "represents ec J P =
     (case J of (X, Y, Z) \<Rightarrow>
        (case P of
           None \<Rightarrow> Z = 0
         | Some (x, y) \<Rightarrow>
             Z mod cg_p ec \<noteq> 0
             \<and> x * (Z * Z) mod cg_p ec = X mod cg_p ec
             \<and> y * (Z * Z * Z) mod cg_p ec = Y mod cg_p ec))"

definition proper :: "CurveGroup \<Rightarrow> JacPoint \<Rightarrow> bool" where
  "proper ec J =
     (case J of (X, Y, Z) \<Rightarrow>
        Z = 0 \<longrightarrow> X mod cg_p ec \<noteq> 0 \<and> Y * Y mod cg_p ec = X * X * X mod cg_p ec)"

text \<open>The pair by which the code writes a point: \<^verbatim>\<open>INF\<close> for the point at infinity.\<close>

definition affine_of :: "ec_point \<Rightarrow> Point" where
  "affine_of P = (case P of None \<Rightarrow> INF_aff | Some q \<Rightarrow> q)"

section \<open>Base decomposition: properties\<close>

lemma convert_loop_pos:
  assumes "2 \<le> base"
  shows "0 < i \<Longrightarrow> \<exists>ds. convert_loop i base acc = Some (Inr (ds @ rev acc)) \<and> ds \<noteq> []
        \<and> (\<forall>d\<in>set ds. 0 \<le> d \<and> d < base) \<and> digits_value base ds = i \<and> hd ds \<noteq> 0"
proof (induction "nat i" arbitrary: i acc rule: less_induct)
  case less
  let ?q = "i div base" and ?r = "i mod base"
  have b0: "base \<noteq> 0" and bpos: "0 < base" using assms by auto
  have r: "0 \<le> ?r" "?r < base" using bpos by auto
  have q: "0 \<le> ?q" "?q < i" using less.prems assms
    by (auto simp: pos_imp_zdiv_nonneg_iff intro: int_div_less_self)
  have unfold: "convert_loop i base acc = convert_loop ?q base (acc @ [?r])"
    using less.prems b0 by (subst convert_loop.simps) simp
  show ?case
  proof (cases "?q = 0")
    case True
    then have "convert_loop ?q base (acc @ [?r]) = Some (Inr (rev (acc @ [?r])))"
      by (subst convert_loop.simps) simp
    moreover have "?r = i" using True by (metis add.left_neutral mult_zero_right mult_div_mod_eq)
    ultimately show ?thesis using unfold less.prems r
      by (intro exI[of _ "[i]"]) (simp add: digits_value_def)
  next
    case False
    then have qpos: "0 < ?q" using q by simp
    have "nat ?q < nat i" using q qpos by simp
    from less.hyps[OF this qpos, of "acc @ [?r]"]
    obtain ds where ds: "convert_loop ?q base (acc @ [?r]) = Some (Inr (ds @ rev (acc @ [?r])))"
      "ds \<noteq> []" "\<forall>d\<in>set ds. 0 \<le> d \<and> d < base" "digits_value base ds = ?q" "hd ds \<noteq> 0"
      by blast
    have "digits_value base (ds @ [?r]) = i"
      using ds(4) by (simp add: digits_value_def mult.commute)
    then show ?thesis using unfold ds r
      by (intro exI[of _ "ds @ [?r]"]) simp
  qed
qed

lemma convert_zero: "base \<noteq> 0 \<Longrightarrow> convert_number_to_base 0 base = Some (Inr [0])"
  unfolding convert_number_to_base_def
  by (subst convert_loop.simps, simp, subst convert_loop.simps, simp)

lemma convert_digits:
  assumes "0 \<le> i" and "2 \<le> base"
  shows "\<exists>ds. convert_number_to_base i base = Some (Inr ds) \<and> ds \<noteq> []
           \<and> (\<forall>d\<in>set ds. 0 \<le> d \<and> d < base)
           \<and> digits_value base ds = i
           \<and> (0 < i \<longrightarrow> hd ds \<noteq> 0)
           \<and> (i = 0 \<longrightarrow> ds = [0])"
proof (cases "i = 0")
  case True
  have "convert_number_to_base 0 base = Some (Inr [0])"
    using assms(2) by (intro convert_zero) simp
  then show ?thesis using True assms(2) by (simp add: digits_value_def)
next
  case False
  then have "0 < i" using assms(1) by simp
  from convert_loop_pos[OF assms(2) this, of "[]"] show ?thesis
    using False by (auto simp: convert_number_to_base_def)
qed

text \<open>C9. For every nonnegative \<open>i\<close> and every base at least 2,
  \<^verbatim>\<open>convert_number_to_base(i, base)\<close> terminates and returns a non-empty big-endian digit
  list: every digit is in \<open>[0, base)\<close>, the digits evaluate back to \<open>i\<close>, the leading digit
  is nonzero whenever \<open>i > 0\<close>, and \<open>i = 0\<close> yields exactly \<open>[0]\<close>.\<close>

theorem convert_number_to_base_digits:
  assumes "0 \<le> i" and "2 \<le> base"
  shows "\<exists>ds. convert_number_to_base i base = Some (Inr ds) \<and> ds \<noteq> []
           \<and> (\<forall>d\<in>set ds. 0 \<le> d \<and> d < base)
           \<and> digits_value base ds = i
           \<and> (0 < i \<longrightarrow> hd ds \<noteq> 0)
           \<and> (i = 0 \<longrightarrow> ds = [0])"
  using assms by (rule convert_digits)

theorem convert_number_to_base_digits_witness:
  "(0::int) \<le> 11 \<and> (2::int) \<le> 3 \<and> convert_number_to_base 11 3 = Some (Inr [1, 0, 2])
     \<and> digits_value 3 [1, 0, 2] = 11"
proof -
  have a: "(0::int) \<le> 11" and b: "(2::int) \<le> 3" by simp_all
  from convert_number_to_base_digits[OF a b] obtain ds where
    ds: "convert_number_to_base 11 3 = Some (Inr ds)" "digits_value 3 ds = 11" by blast
  have "convert_number_to_base 11 3 = Some (Inr [1, 0, 2])" by code_simp
  with ds show ?thesis by simp
qed

section \<open>Affine identities\<close>

lemma CurveGroup_init_fields:
  assumes "CurveGroup_init p a b = Inr ec"
  shows "cg_p ec = p" and "cg_a ec = a" and "cg_b ec = b"
    and "psize ec = (bit_length p + 7) div 8" and "pIsThreeModFour ec = (p mod 4 = 3)"
    and "2 \<le> p" and "p mod 2 = 1"
  using assms by (auto simp: CurveGroup_init_def split: if_splits)

lemma mod_inv_one: "2 \<le> m \<Longrightarrow> mod_inv 1 m = Inr 1"
  by (simp add: mod_inv_def upto_rec1[of 1 "m - 1"])

lemma on_curve_cases:
  assumes "is_on_curve ec P = Inr True"
  shows "snd P = 0 \<or> (0 < snd P \<and> snd P < cg_p ec \<and> y2 ec (fst P) = snd P * snd P mod cg_p ec)"
  using assms by (auto simp: is_on_curve_def split: if_splits)

lemma negate_negate:
  assumes "0 < cg_p ec" and "0 \<le> snd P" and "snd P < cg_p ec"
  shows "negate ec (negate ec P) = P"
proof (cases "snd P = 0")
  case True
  then show ?thesis by (cases P) (simp add: negate_def)
next
  case False
  then have "- snd P mod cg_p ec = cg_p ec - snd P"
    using assms by (simp add: zmod_zminus1_eq_if)
  then show ?thesis using assms by (cases P) (simp add: negate_def)
qed

lemma negate_on_curve:
  assumes "0 < cg_p ec" and "is_on_curve ec P = Inr True"
  shows "is_on_curve ec (negate ec P) = Inr True"
proof -
  from on_curve_cases[OF assms(2)] show ?thesis
  proof
    assume "snd P = 0"
    then show ?thesis using assms(1) by (simp add: is_on_curve_def negate_def)
  next
    assume h: "0 < snd P \<and> snd P < cg_p ec \<and> y2 ec (fst P) = snd P * snd P mod cg_p ec"
    let ?p = "cg_p ec" and ?y = "snd P"
    have m: "- ?y mod ?p = ?p - ?y" using h by (simp add: zmod_zminus1_eq_if)
    have "(?p - ?y) * (?p - ?y) = ?y * ?y + ?p * (?p - 2 * ?y)" by (simp add: algebra_simps)
    then have "(?p - ?y) * (?p - ?y) mod ?p = ?y * ?y mod ?p"
      by (metis mod_mult_self2)
    then show ?thesis using h m by (simp add: is_on_curve_def negate_def)
  qed
qed

lemma add_negate:
  assumes "2 \<le> cg_p ec" and "cg_p ec mod 2 = 1" and "is_on_curve ec P = Inr True"
    and "snd P = 0 \<longrightarrow> P = INF_aff"
  shows "add ec P (negate ec P) = Inr INF_aff"
proof -
  have pos: "0 < cg_p ec" using assms(1) by simp
  have oc: "is_on_curve ec (negate ec P) = Inr True"
    using negate_on_curve[OF pos assms(3)] .
  have add_eq: "add ec P (negate ec P) = add_aff ec P (negate ec P)"
    using assms(3) oc by (simp add: add_def require_on_curve_def)
  from on_curve_cases[OF assms(3)] show ?thesis
  proof
    assume z: "snd P = 0"
    then have "P = INF_aff" using assms(4) by simp
    then show ?thesis using add_eq pos by (simp add: add_aff_def negate_def INF_aff_def)
  next
    assume h: "0 < snd P \<and> snd P < cg_p ec \<and> y2 ec (fst P) = snd P * snd P mod cg_p ec"
    let ?p = "cg_p ec" and ?y = "snd P"
    have m: "- ?y mod ?p = ?p - ?y" using h by (simp add: zmod_zminus1_eq_if)
    have ne: "?p - ?y \<noteq> ?y" using assms(2) by presburger
    have nz: "?p - ?y \<noteq> 0" using h by simp
    show ?thesis using add_eq h m ne nz by (simp add: add_aff_def negate_def)
  qed
qed

lemma add_INF:
  assumes "is_on_curve ec P = Inr True"
  shows "add ec P INF_aff = Inr P"
  using assms by (simp add: add_def require_on_curve_def is_on_curve_def add_aff_def INF_aff_def)

lemma aff_jac_roundtrip:
  assumes "2 \<le> cg_p ec"
    and "P = INF_aff \<or> (0 < snd P \<and> snd P < cg_p ec \<and> 0 \<le> fst P \<and> fst P < cg_p ec)"
  shows "aff_from_jac ec (jac_from_aff P) = Inr P"
  using assms(2)
proof
  assume "P = INF_aff"
  then show ?thesis by (simp add: aff_from_jac_def jac_from_aff_def INF_aff_def)
next
  assume h: "0 < snd P \<and> snd P < cg_p ec \<and> 0 \<le> fst P \<and> fst P < cg_p ec"
  then show ?thesis using mod_inv_one[OF assms(1)]
    by (cases P) (simp add: aff_from_jac_def jac_from_aff_def)
qed

text \<open>C4, amended. For every \<^verbatim>\<open>CurveGroup\<close> and every on-curve affine point \<open>P\<close> that is
  either \<^verbatim>\<open>INF\<close> itself or has \<open>y \<noteq> 0\<close> and \<open>x\<close> in \<open>[0, p)\<close>: negating twice gives \<open>P\<close>,
  \<open>P\<close> plus its opposite is \<^verbatim>\<open>INF\<close>, \<open>P\<close> plus \<^verbatim>\<open>INF\<close> is \<open>P\<close>, and the conversion to
  Jacobian coordinates and back gives \<open>P\<close>.\<close>

theorem affine_identities:
  assumes "CurveGroup_init p a b = Inr ec"
    and "is_on_curve ec P = Inr True"
    and "P = INF_aff \<or> (snd P \<noteq> 0 \<and> 0 \<le> fst P \<and> fst P < p)"
  shows "negate ec (negate ec P) = P
       \<and> add ec P (negate ec P) = Inr INF_aff
       \<and> add ec P INF_aff = Inr P
       \<and> aff_from_jac ec (jac_from_aff P) = Inr P"
proof -
  note f = CurveGroup_init_fields[OF assms(1)]
  have p2: "2 \<le> cg_p ec" and podd: "cg_p ec mod 2 = 1" using f by simp_all
  have yr: "snd P = 0 \<or> (0 < snd P \<and> snd P < cg_p ec)"
    using on_curve_cases[OF assms(2)] by blast
  have c: "snd P = 0 \<longrightarrow> P = INF_aff" using assms(3) by auto
  have 1: "negate ec (negate ec P) = P"
    using yr p2 by (intro negate_negate) auto
  have 2: "add ec P (negate ec P) = Inr INF_aff"
    using add_negate[OF p2 podd assms(2) c] .
  have 3: "add ec P INF_aff = Inr P" using add_INF[OF assms(2)] .
  have 4: "aff_from_jac ec (jac_from_aff P) = Inr P"
    using assms(3) yr f(1) by (intro aff_jac_roundtrip[OF p2]) auto
  from 1 2 3 4 show ?thesis by simp
qed

theorem affine_identities_witness:
  "CurveGroup_init 13 0 2 = Inr ec13_19 \<and> is_on_curve ec13_19 (1, 9) = Inr True
   \<and> negate ec13_19 (negate ec13_19 (1, 9)) = (1, 9)
   \<and> add ec13_19 (1, 9) (negate ec13_19 (1, 9)) = Inr INF_aff
   \<and> add ec13_19 (1, 9) INF_aff = Inr (1, 9)
   \<and> aff_from_jac ec13_19 (jac_from_aff (1, 9)) = Inr (1, 9)"
proof -
  have a: "CurveGroup_init 13 0 2 = Inr ec13_19"
    by code_simp
  have b: "is_on_curve ec13_19 (1, 9) = Inr True"
    by (simp add: is_on_curve_def ec13_19_def y2_def)
  have c: "(1, 9) = INF_aff \<or> (snd (1::int, 9::int) \<noteq> 0 \<and> 0 \<le> fst (1::int, 9::int) \<and> fst (1::int, 9::int) < 13)"
    by simp
  from affine_identities[OF a b c] a b show ?thesis by simp
qed

text \<open>The claim as stated, for every point that \<^verbatim>\<open>is_on_curve\<close> accepts, fails at
  \<open>(5, 0)\<close>: the point is accepted (\<open>y = 0\<close> reads as infinity), but adding its opposite
  returns \<open>(5, 0)\<close>, not \<^verbatim>\<open>INF\<close>, and the round trip through Jacobian coordinates returns
  \<^verbatim>\<open>INF\<close>, not \<open>(5, 0)\<close>.\<close>

theorem affine_identities_counterexample:
  "CurveGroup_init 13 0 2 = Inr ec13_19 \<and> is_on_curve ec13_19 (5, 0) = Inr True
   \<and> add ec13_19 (5, 0) (negate ec13_19 (5, 0)) = Inr (5, 0)
   \<and> aff_from_jac ec13_19 (jac_from_aff (5, 0)) = Inr (7, 0)
   \<and> INF_aff = (7, 0)"
  by code_simp

section \<open>Validation of affine points\<close>

lemma y2_shift: "y2 ec (x + k * cg_p ec) = y2 ec x"
proof -
  let ?p = "cg_p ec"
  have "((x + k * ?p)\<^sup>2 + cg_a ec) * (x + k * ?p) + cg_b ec
      = ((x\<^sup>2 + cg_a ec) * x + cg_b ec) + ?p * (k * (3 * x\<^sup>2 + 3 * x * k * ?p + k\<^sup>2 * ?p\<^sup>2 + cg_a ec))"
    by (simp add: power2_eq_square algebra_simps)
  then show ?thesis unfolding y2_def by (metis mod_mult_self2)
qed

lemma is_on_curve_x_shift: "is_on_curve ec (x + k * cg_p ec, y) = is_on_curve ec (x, y)"
  by (simp add: is_on_curve_def y2_shift)

text \<open>C7. \<^verbatim>\<open>is_on_curve\<close> checks the range of \<open>y\<close> only. On the test curve \<^verbatim>\<open>ec13_19\<close>
  (\<open>p = 13\<close>) the points \<open>(14, 9)\<close> and \<open>(-12, 9)\<close>, whose \<open>x\<close> is outside \<open>[0, p)\<close>, are
  reported to be on the curve, where the claim has a validation error; the sibling method
  \<^verbatim>\<open>y\<close> rejects \<open>x = 14\<close>, and \<^verbatim>\<open>add\<close> lets \<open>(14, 9)\<close> through its validation and then fails
  in the modular inverse.\<close>

theorem is_on_curve_accepts_x_out_of_range:
  "CurveGroup_init 13 0 2 = Inr ec13_19
   \<and> is_on_curve ec13_19 (14, 9) = Inr True
   \<and> is_on_curve ec13_19 (- 12, 9) = Inr True
   \<and> is_on_curve ec13_19 (1, 13) = Inl ValueError
   \<and> y_of ec13_19 14 = Inl ValueError
   \<and> add ec13_19 (14, 9) (1, 9) = Inl ValueError
   \<and> add ec13_19 (1, 9) (1, 9) = Inr (2, 6)"
  by code_simp

section \<open>Jacobian addition\<close>

text \<open>The selection by the \<open>Z = 0\<close> flags is reached unless both products of the doubling
  test vanish modulo \<open>p\<close>; against the triple \<open>(0, 0, 0)\<close> they always do.\<close>

lemma add_jac_left_infinity:
  assumes "RZ \<noteq> 0"
    and "\<not> (QX * (RZ * RZ) mod cg_p ec = 0 \<and> QY * (RZ * RZ * RZ) mod cg_p ec = 0)"
  shows "add_jac ec (QX, QY, 0) (RX, RY, RZ) = (RX, RY, RZ)"
  using assms by (auto simp: add_jac_def Let_def)

lemma add_jac_right_infinity:
  assumes "QZ \<noteq> 0"
    and "\<not> (RX * (QZ * QZ) mod cg_p ec = 0 \<and> RY * (QZ * QZ * QZ) mod cg_p ec = 0)"
  shows "add_jac ec (QX, QY, QZ) (RX, RY, 0) = (QX, QY, QZ)"
  using assms by (auto simp: add_jac_def Let_def)

lemma add_jac_both_infinity:
  "\<exists>X Y. add_jac ec (QX, QY, 0) (RX, RY, 0) = (X, Y, 0)"
  by (simp add: add_jac_def Let_def INFJ_def)

lemma add_jac_zero_triple_right:
  "add_jac ec (QX, QY, QZ) (0, 0, 0) = double_jac ec (QX, QY, QZ)"
  by (simp add: add_jac_def double_jac_def Let_def)

lemma add_jac_zero_triple_left:
  "add_jac ec (0, 0, 0) R = (0, 0, 0)"
  by (cases R) (simp add: add_jac_def Let_def)

text \<open>The assertions of \<^verbatim>\<open>test_add_double_jac\<close> on \<^verbatim>\<open>ec13_19\<close>: they hold of \<^verbatim>\<open>INFJ\<close> and would
  not hold of the triple \<open>(0, 0, 0)\<close>.\<close>

lemma test_add_double_jac_infinity:
  "jac_equality ec13_19 (add_jac ec13_19 (1, 9, 1) INFJ) (1, 9, 1)
   \<and> jac_equality ec13_19 (add_jac ec13_19 INFJ (1, 9, 1)) (1, 9, 1)
   \<and> \<not> jac_equality ec13_19 (add_jac ec13_19 (1, 9, 1) (0, 0, 0)) (1, 9, 1)"
  by code_simp

text \<open>Modulo 7 the triple \<^verbatim>\<open>INFJ\<close> itself makes the doubling test succeed.\<close>

lemma add_jac_INFJ_modulo_seven:
  assumes "cg_p ec = 7"
  shows "add_jac ec (QX, QY, QZ) INFJ = double_jac ec (QX, QY, QZ)"
    and "add_jac ec INFJ (RX, RY, RZ) = double_jac ec INFJ"
    and "double_jac ec INFJ = (0, 0, 0)"
  using assms by (simp_all add: add_jac_def double_jac_def Let_def INFJ_def)

text \<open>C3. \<^verbatim>\<open>_add_jac\<close> tests for the doubling case before it selects by the two
  \<open>Z = 0\<close> flags, and the test compares \<open>X\<^sub>Q Z\<^sub>R\<^sup>2\<close> with \<open>X\<^sub>R Z\<^sub>Q\<^sup>2\<close> and \<open>Y\<^sub>Q Z\<^sub>R\<^sup>3\<close> with
  \<open>Y\<^sub>R Z\<^sub>Q\<^sup>3\<close> modulo \<open>p\<close>: against an operand with \<open>Z = 0\<close> whose \<open>X\<close> and \<open>Y\<close> are
  multiples of \<open>p\<close> all four are 0. On \<^verbatim>\<open>ec13_19\<close>, with \<open>G = (1, 9, 1)\<close> and the triple
  \<open>(0, 0, 0)\<close> (which is what \<^verbatim>\<open>_jac_from_aff\<close> returns for \<open>(0, 0)\<close>): \<open>G + (0, 0, 0)\<close> returns
  the double of \<open>G\<close>, not \<open>G\<close>, and \<open>(0, 0, 0) + G\<close> returns \<open>(0, 0, 0)\<close>, not \<open>G\<close>. An
  infinity with \<open>X\<close> not a multiple of \<open>p\<close>, such as \<open>(1, 1, 0)\<close> or \<^verbatim>\<open>INFJ\<close>, is handled there
  as the claim says. On a curve over the field of 7 elements \<^verbatim>\<open>INFJ\<close> itself, \<open>(7, 0, 0)\<close>, is
  such an operand: on \<open>y\<^sup>2 = x\<^sup>3 + 3\<close> with \<open>G = (1, 2, 1)\<close>, \<open>G + INFJ\<close> returns the double of
  \<open>G\<close> and \<open>INFJ + G\<close> returns \<open>(0, 0, 0)\<close>.\<close>

theorem add_jac_infinity_doubling_branch:
  "add_jac ec13_19 (1, 9, 1) (0, 0, 0) = (11, 9, 5)
   \<and> double_jac ec13_19 (1, 9, 1) = (11, 9, 5)
   \<and> add_jac ec13_19 (0, 0, 0) (1, 9, 1) = (0, 0, 0)
   \<and> jac_from_aff (0, 0) = (0, 0, 0)
   \<and> add_jac ec13_19 (1, 9, 1) (1, 1, 0) = (1, 9, 1)
   \<and> add_jac ec13_19 (1, 1, 0) (1, 9, 1) = (1, 9, 1)
   \<and> add_jac ec13_19 (1, 9, 1) INFJ = (1, 9, 1)
   \<and> add_jac ec13_19 INFJ (1, 9, 1) = (1, 9, 1)
   \<and> CurveGroup_init 7 0 3 = Inr ec7_13
   \<and> INFJ = (7, 0, 0)
   \<and> add_jac ec7_13 (1, 2, 1) INFJ = (5, 3, 4)
   \<and> double_jac ec7_13 (1, 2, 1) = (5, 3, 4)
   \<and> add_jac ec7_13 INFJ (1, 2, 1) = (0, 0, 0)
   \<and> aff_from_jac ec7_13 (1, 2, 1) = Inr (1, 2)
   \<and> aff_from_jac ec7_13 (5, 3, 4) = Inr (6, 3)
   \<and> aff_from_jac ec7_13 (0, 0, 0) = Inr INF_aff"
  by code_simp

section \<open>Scalar multiplication over the field of 7 elements\<close>

text \<open>C1. On the curve \<open>y\<^sup>2 = x\<^sup>3 + 3\<close> over the field of 7 elements, with
  \<open>H = Q = (1, 2, 1)\<close>: \<^verbatim>\<open>_double_mult(4, H, 1, Q)\<close> has the affine image \<open>(4, 2)\<close>, while
  \<^verbatim>\<open>_mult(4, H)\<close> and \<^verbatim>\<open>_mult(1, Q)\<close> have the affine images \<open>(4, 5)\<close> and \<open>(1, 2)\<close>, whose sum
  is \<open>(3, 3)\<close>. Likewise \<^verbatim>\<open>_mult(16, Q)\<close> has the affine image \<open>(5, 3)\<close>, while \<^verbatim>\<open>_mult(8, Q)\<close>
  has the affine image \<open>(3, 4)\<close>, whose double is \<open>(2, 2)\<close>. Both runs add the table entry
  \<open>T[0] = INFJ = (7, 0, 0)\<close> for a zero digit, and \<^verbatim>\<open>_add_jac\<close> doubles instead, since 7 is
  0 modulo \<open>p\<close>.\<close>

theorem double_mult_not_linear_modulo_seven:
  "CurveGroup_init 7 0 3 = Inr ec7_13
   \<and> is_on_curve ec7_13 (1, 2) = Inr True
   \<and> jac_from_aff (1, 2) = (1, 2, 1)
   \<and> double_mult 4 (1, 2, 1) 1 (1, 2, 1) ec7_13 = Inr (2, 2, 2)
   \<and> aff_from_jac ec7_13 (2, 2, 2) = Inr (4, 2)
   \<and> mult 4 (1, 2, 1) ec7_13 = Some (Inr (1, 2, 3))
   \<and> aff_from_jac ec7_13 (1, 2, 3) = Inr (4, 5)
   \<and> mult 1 (1, 2, 1) ec7_13 = Some (Inr (1, 2, 1))
   \<and> aff_from_jac ec7_13 (1, 2, 1) = Inr (1, 2)
   \<and> add ec7_13 (4, 5) (1, 2) = Inr (3, 3)
   \<and> mult 16 (1, 2, 1) ec7_13 = Some (Inr (5, 3, 1))
   \<and> aff_from_jac ec7_13 (5, 3, 1) = Inr (5, 3)
   \<and> mult 8 (1, 2, 1) ec7_13 = Some (Inr (5, 3, 5))
   \<and> aff_from_jac ec7_13 (5, 3, 5) = Inr (3, 4)
   \<and> add ec7_13 (3, 4) (3, 4) = Inr (2, 2)"
  by code_simp

text \<open>C2. On the same curve with \<open>Q = (1, 2)\<close>: \<^verbatim>\<open>_mult_aff(2, Q)\<close> is \<open>(6, 3)\<close>, while
  \<^verbatim>\<open>_mult_jac(2, _jac_from_aff(Q))\<close> is \<open>(0, 0, 0)\<close>, whose affine image is \<^verbatim>\<open>INF\<close>; for \<open>m = 1\<close>
  \<^verbatim>\<open>_mult_jac\<close> returns \<open>Q\<close> while \<^verbatim>\<open>_mult_mont_ladder\<close> returns the double of \<open>Q\<close>; and for
  \<open>m = 3\<close> the affine images are \<open>(2, 2)\<close> for \<^verbatim>\<open>_mult_aff\<close>, \<^verbatim>\<open>_mult_jac\<close> and the two
  fixed-window algorithms, \<open>(4, 5)\<close> for the Montgomery ladder and \<open>(5, 3)\<close> for
  \<^verbatim>\<open>_mult_base_3\<close>. \<^verbatim>\<open>_mult_jac\<close>, \<^verbatim>\<open>_mult_mont_ladder\<close> and \<^verbatim>\<open>_mult_base_3\<close> start from
  \<^verbatim>\<open>INFJ = (7, 0, 0)\<close> and add to it with \<^verbatim>\<open>_add_jac\<close>, which doubles instead, since 7 is 0
  modulo \<open>p\<close>.\<close>

theorem mult_algorithms_disagree_modulo_seven:
  "CurveGroup_init 7 0 3 = Inr ec7_13
   \<and> is_on_curve ec7_13 (1, 2) = Inr True
   \<and> jac_from_aff (1, 2) = (1, 2, 1)
   \<and> mult_aff 2 (1, 2) ec7_13 = Inr (6, 3)
   \<and> mult_jac 2 (1, 2, 1) ec7_13 = Inr (0, 0, 0)
   \<and> aff_from_jac ec7_13 (0, 0, 0) = Inr (7, 0)
   \<and> mult_jac 1 (1, 2, 1) ec7_13 = Inr (1, 2, 1)
   \<and> mult_mont_ladder 1 (1, 2, 1) ec7_13 = Inr (5, 3, 4)
   \<and> aff_from_jac ec7_13 (1, 2, 1) = Inr (1, 2)
   \<and> aff_from_jac ec7_13 (5, 3, 4) = Inr (6, 3)
   \<and> mult_aff 3 (1, 2) ec7_13 = Inr (2, 2)
   \<and> mult_jac 3 (1, 2, 1) ec7_13 = Inr (1, 5, 5)
   \<and> aff_from_jac ec7_13 (1, 5, 5) = Inr (2, 2)
   \<and> mult_mont_ladder 3 (1, 2, 1) ec7_13 = Inr (1, 2, 3)
   \<and> aff_from_jac ec7_13 (1, 2, 3) = Inr (4, 5)
   \<and> mult_base_3 3 (1, 2, 1) ec7_13 = Some (Inr (5, 3, 1))
   \<and> aff_from_jac ec7_13 (5, 3, 1) = Inr (5, 3)
   \<and> mult_fixed_window 3 (1, 2, 1) ec7_13 4 False = Some (Inr (1, 2, 2))
   \<and> mult_fixed_window_cached 3 (1, 2, 1) ec7_13 4 = Some (Inr (1, 2, 2))
   \<and> aff_from_jac ec7_13 (1, 2, 2) = Inr (2, 2)"
  by code_simp

section \<open>Tables of multiples\<close>

lemma range3_odd: "range3 3 stop 2 = map (\<lambda>n. 3 + 2 * int n) [0..<nat ((stop - 2) div 2)]"
  by (simp add: range3_def)

lemma multiples_step_length: "length (multiples_step ec Q T i) = length T + 2"
  by (simp add: multiples_step_def Let_def)

lemma multiples_step_nth:
  "n < length T \<Longrightarrow> multiples_step ec Q T i ! n = T ! n"
  by (simp add: multiples_step_def Let_def nth_append)

lemma multiples_step_new:
  "multiples_step ec Q T i ! length T = double_jac ec (T ! nat ((i - 1) div 2))"
  "multiples_step ec Q T i ! Suc (length T) = add_jac ec (double_jac ec (T ! nat ((i - 1) div 2))) Q"
  by (simp_all add: multiples_step_def Let_def nth_append)

text \<open>The table after \<open>n\<close> rounds of the loop \<^verbatim>\<open>for i in range(3, ..., 2)\<close>.\<close>

lemma table_rounds:
  fixes ec :: CurveGroup and Q :: JacPoint and n :: nat
  defines "T \<equiv> foldl (multiples_step ec Q) [INFJ, Q] (map (\<lambda>n. 3 + 2 * int n) [0..<n])"
  shows "length T = 2 * n + 2 \<and> T ! 0 = INFJ \<and> T ! 1 = Q
       \<and> (\<forall>j. 1 \<le> j \<and> j \<le> n \<longrightarrow>
            T ! (2 * j) = double_jac ec (T ! j) \<and> T ! (2 * j + 1) = add_jac ec (T ! (2 * j)) Q)"
  unfolding T_def
proof (induction n)
  case 0
  show ?case by simp
next
  case (Suc n)
  let ?T = "foldl (multiples_step ec Q) [INFJ, Q] (map (\<lambda>n. 3 + 2 * int n) [0..<n])"
  let ?i = "3 + 2 * int n"
  let ?T' = "multiples_step ec Q ?T ?i"
  have eq: "foldl (multiples_step ec Q) [INFJ, Q] (map (\<lambda>n. 3 + 2 * int n) [0..<Suc n]) = ?T'"
    by simp
  from Suc.IH have len: "length ?T = 2 * n + 2" and t0: "?T ! 0 = INFJ" and t1: "?T ! 1 = Q"
    and rec: "\<And>j. 1 \<le> j \<Longrightarrow> j \<le> n \<Longrightarrow>
        ?T ! (2 * j) = double_jac ec (?T ! j) \<and> ?T ! (2 * j + 1) = add_jac ec (?T ! (2 * j)) Q"
    by blast+
  have idx: "nat ((?i - 1) div 2) = Suc n" by simp
  have old: "\<And>m. m < 2 * n + 2 \<Longrightarrow> ?T' ! m = ?T ! m"
    using multiples_step_nth[of _ ?T ec Q ?i] len by simp
  have new1: "?T' ! (2 * Suc n) = double_jac ec (?T ! Suc n)"
    using multiples_step_new(1)[of ec Q ?T ?i] len idx by simp
  have new2: "?T' ! (2 * Suc n + 1) = add_jac ec (double_jac ec (?T ! Suc n)) Q"
    using multiples_step_new(2)[of ec Q ?T ?i] len idx by simp
  have sn: "?T' ! Suc n = ?T ! Suc n" using old[of "Suc n"] by simp
  have "length ?T' = 2 * Suc n + 2" using len by (simp add: multiples_step_length)
  moreover have "?T' ! 0 = INFJ" using old[of 0] t0 by simp
  moreover have "?T' ! 1 = Q" using old[of 1] t1 by simp
  moreover have "?T' ! (2 * j) = double_jac ec (?T' ! j) \<and> ?T' ! (2 * j + 1) = add_jac ec (?T' ! (2 * j)) Q"
    if j: "1 \<le> j" "j \<le> Suc n" for j
  proof (cases "j = Suc n")
    case True
    then show ?thesis using new1 new2 sn by simp
  next
    case False
    then have jn: "j \<le> n" using j by simp
    have "?T' ! (2 * j) = ?T ! (2 * j)" "?T' ! (2 * j + 1) = ?T ! (2 * j + 1)" "?T' ! j = ?T ! j"
      using jn by (auto intro!: old)
    then show ?thesis using rec[OF j(1) jn] by simp
  qed
  ultimately show ?case unfolding eq by blast
qed

lemma multiples_table:
  assumes "2 \<le> sz"
  shows "\<exists>T. multiples Q sz ec = Inr T \<and> length T = nat sz \<and> T ! 0 = INFJ \<and> T ! 1 = Q
       \<and> (\<forall>k. 1 \<le> k \<and> 2 * k < nat sz \<longrightarrow> T ! (2 * k) = double_jac ec (T ! k))
       \<and> (\<forall>k. 1 \<le> k \<and> 2 * k + 1 < nat sz \<longrightarrow> T ! (2 * k + 1) = add_jac ec (T ! (2 * k)) Q)"
proof -
  define h where "h = nat (sz div 2)"
  have "1 \<le> sz div 2" using assms by presburger
  then have h1: "1 \<le> h" unfolding h_def by simp
  define n where "n = h - 1"
  have hn: "h = Suc n" using h1 by (simp add: n_def)
  define T where "T = foldl (multiples_step ec Q) [INFJ, Q] (map (\<lambda>n. 3 + 2 * int n) [0..<n])"
  have "(sz div 2 * 2 - 2) div 2 = sz div 2 - 1" by presburger
  then have cnt: "nat ((sz div 2 * 2 - 2) div 2) = n"
    unfolding n_def h_def by (simp add: nat_diff_distrib')
  have fold: "foldl (multiples_step ec Q) [INFJ, Q] (range3 3 (sz div 2 * 2) 2) = T"
    unfolding T_def range3_odd cnt ..
  from table_rounds[of ec Q n, folded T_def]
  have len: "length T = 2 * n + 2" and t0: "T ! 0 = INFJ" and t1: "T ! 1 = Q"
    and rec: "\<And>j. 1 \<le> j \<Longrightarrow> j \<le> n \<Longrightarrow>
        T ! (2 * j) = double_jac ec (T ! j) \<and> T ! (2 * j + 1) = add_jac ec (T ! (2 * j)) Q"
    by blast+
  have len2: "length T = 2 * h" using len hn by simp
  show ?thesis
  proof (cases "sz mod 2 = 0")
    case True
    then have res: "multiples Q sz ec = Inr T"
      using assms fold by (simp add: multiples_def Let_def)
    have "sz = 2 * (sz div 2)" using True by presburger
    then have "nat sz = nat (2 * (sz div 2))" by simp
    then have sz: "nat sz = 2 * h" unfolding h_def by (simp add: nat_mult_distrib)
    show ?thesis using res len2 sz t0 t1 rec hn
      by (intro exI[of _ T]) auto
  next
    case False
    let ?T' = "T @ [double_jac ec (T ! nat ((sz - 1) div 2))]"
    have res: "multiples Q sz ec = Inr ?T'"
      using assms fold False by (simp add: multiples_def Let_def)
    have "sz = 2 * (sz div 2) + 1" using False by presburger
    then have "nat sz = nat (2 * (sz div 2) + 1)" by simp
    then have sz: "nat sz = 2 * h + 1" using assms unfolding h_def
      by (simp add: nat_mult_distrib nat_add_distrib)
    have "(sz - 1) div 2 = sz div 2" using False by presburger
    then have mid: "nat ((sz - 1) div 2) = h" unfolding h_def by simp
    have old: "\<And>m. m < 2 * h \<Longrightarrow> ?T' ! m = T ! m" using len2 by (simp add: nth_append)
    have last: "?T' ! (2 * h) = double_jac ec (T ! h)" using len2 mid by (simp add: nth_append)
    have a: "?T' ! (2 * k) = double_jac ec (?T' ! k)" if k: "1 \<le> k" "2 * k < nat sz" for k
    proof (cases "k = h")
      case True
      then show ?thesis using last old[of h] h1 by simp
    next
      case False
      then have kn: "k \<le> n" using k sz hn by simp
      then have "2 * k < 2 * h" "k < 2 * h" using hn by simp_all
      then have "?T' ! (2 * k) = T ! (2 * k)" "?T' ! k = T ! k" by (simp_all add: old)
      then show ?thesis using rec[OF k(1) kn] by simp
    qed
    have b: "?T' ! (2 * k + 1) = add_jac ec (?T' ! (2 * k)) Q" if k: "1 \<le> k" "2 * k + 1 < nat sz" for k
    proof -
      have kn: "k \<le> n" using k sz hn by simp
      then have "2 * k < 2 * h" "2 * k + 1 < 2 * h" using hn by simp_all
      then have "?T' ! (2 * k) = T ! (2 * k)" "?T' ! (2 * k + 1) = T ! (2 * k + 1)"
        by (simp_all add: old)
      then show ?thesis using rec[OF k(1) kn] by simp
    qed
    have "length ?T' = nat sz" using len2 sz by simp
    moreover have "?T' ! 0 = INFJ" "?T' ! 1 = Q" using old[of 0] old[of 1] t0 t1 h1 by simp_all
    ultimately show ?thesis using res a b by (intro exI[of _ ?T']) blast
  qed
qed

section \<open>The cached fixed-window table\<close>

lemma sublist_length:
  assumes "0 < w"
  shows "length (foldl (multiples_step ec K) [INFJ, K] (range3 3 (2 ^ nat w) 2)) = 2 ^ nat w"
proof -
  obtain v where v: "nat w = Suc v" using assms by (cases "nat w") auto
  have "((2::int) ^ Suc v - 2) div 2 = 2 ^ v - 1" by simp
  then have cnt: "nat (((2::int) ^ nat w - 2) div 2) = 2 ^ v - 1"
    unfolding v by (simp add: nat_diff_distrib' nat_power_eq)
  have "length (foldl (multiples_step ec K) [INFJ, K] (range3 3 (2 ^ nat w) 2)) = 2 * (2 ^ v - 1) + 2"
    unfolding range3_odd cnt using table_rounds[of ec K "2 ^ v - 1"] by blast
  also have "\<dots> = 2 ^ nat w"
  proof -
    have "(1::nat) \<le> 2 ^ v" by simp
    then have "2 * (2 ^ v - 1) + 2 = (2::nat) * 2 ^ v" by linarith
    then show ?thesis unfolding v by simp
  qed
  finally show ?thesis .
qed

lemma fixwind_loop_shape:
  assumes "0 < w"
  shows "length (fixwind_loop n ec w T K) = length T + n
       \<and> (\<forall>S\<in>set (fixwind_loop n ec w T K). S \<in> set T \<or> length S = 2 ^ nat w)"
proof (induction n arbitrary: T K)
  case 0
  show ?case by simp
next
  case (Suc n)
  define S where "S = foldl (multiples_step ec K) [INFJ, K] (range3 3 (2 ^ nat w) 2)"
  define K' where "K' = double_jac ec (S ! (2 ^ nat (w - 1)))"
  have eq: "fixwind_loop (Suc n) ec w T K = fixwind_loop n ec w (T @ [S]) K'"
    unfolding S_def K'_def by (simp add: Let_def)
  have lenS: "length S = 2 ^ nat w" unfolding S_def by (rule sublist_length[OF assms])
  from Suc.IH[of "T @ [S]" K']
  have a: "length (fixwind_loop n ec w (T @ [S]) K') = length (T @ [S]) + n"
    and b: "\<And>U. U \<in> set (fixwind_loop n ec w (T @ [S]) K') \<Longrightarrow>
              U \<in> set (T @ [S]) \<or> length U = 2 ^ nat w"
    by blast+
  have "length (fixwind_loop (Suc n) ec w T K) = length T + Suc n"
    unfolding eq a by simp
  moreover have "U \<in> set T \<or> length U = 2 ^ nat w"
    if "U \<in> set (fixwind_loop (Suc n) ec w T K)" for U
  proof -
    from that have "U \<in> set (T @ [S]) \<or> length U = 2 ^ nat w" unfolding eq by (rule b)
    then show ?thesis using lenS by auto
  qed
  ultimately show ?case by blast
qed

lemma cached_multiples_fixwind_shape:
  assumes "0 < w"
  shows "\<exists>T. cached_multiples_fixwind Q ec w = Inr T
       \<and> length T = nat ((psize ec * 8) div w + 1)
       \<and> (\<forall>S\<in>set T. length S = 2 ^ nat w)"
proof -
  define n where "n = nat ((psize ec * 8) div w + 1)"
  have eq: "cached_multiples_fixwind Q ec w = Inr (fixwind_loop n ec w [] Q)"
    using assms unfolding n_def by (simp add: cached_multiples_fixwind_def)
  from fixwind_loop_shape[OF assms, of n ec "[]" Q]
  have "length (fixwind_loop n ec w [] Q) = n"
    and "\<forall>S\<in>set (fixwind_loop n ec w [] Q). length S = 2 ^ nat w"
    by simp_all
  then show ?thesis unfolding eq n_def by blast
qed

lemma getitem_in_range:
  "0 \<le> i \<Longrightarrow> i < int (length xs) \<Longrightarrow> getitem xs i = Inr (xs ! nat i)"
  by (simp add: getitem_def)

lemma getitem_too_large:
  "int (length xs) \<le> i \<Longrightarrow> getitem xs i = Inl IndexError"
  by (simp add: getitem_def)

lemma fixed_window_cached_loop_in_bounds:
  assumes T: "\<forall>S\<in>set T. length S = 2 ^ nat w"
    and ds: "\<forall>d\<in>set digits. 0 \<le> d \<and> d < 2 ^ nat w"
  shows "(\<forall>i\<in>set js. 0 \<le> i \<and> i < int (length digits)) \<Longrightarrow> int (length js) \<le> k
         \<Longrightarrow> k \<le> int (length T)
         \<Longrightarrow> \<exists>R'. fixed_window_cached_loop js digits T k R ec = Inr R'"
proof (induction js arbitrary: k R)
  case Nil
  show ?case by (rule exI[of _ R]) simp
next
  case (Cons i js)
  have k1: "0 \<le> k - 1" "k - 1 < int (length T)" using Cons.prems by auto
  then have g1: "getitem T (k - 1) = Inr (T ! nat (k - 1))" by (rule getitem_in_range)
  have "nat (k - 1) < length T" using k1 by simp
  then have S: "length (T ! nat (k - 1)) = 2 ^ nat w" using T by simp
  have i: "0 \<le> i" "i < int (length digits)" using Cons.prems by auto
  then have g2: "getitem digits i = Inr (digits ! nat i)" by (rule getitem_in_range)
  have "nat i < length digits" using i by simp
  then have "digits ! nat i \<in> set digits" by simp
  then have d: "0 \<le> digits ! nat i" "digits ! nat i < 2 ^ nat w" using ds by auto
  have "int (length (T ! nat (k - 1))) = 2 ^ nat w" using S by simp
  then have g3: "getitem (T ! nat (k - 1)) (digits ! nat i) = Inr (T ! nat (k - 1) ! nat (digits ! nat i))"
    using d by (intro getitem_in_range) auto
  have "\<exists>R'. fixed_window_cached_loop js digits T (k - 1)
          (add_jac ec R (T ! nat (k - 1) ! nat (digits ! nat i))) ec = Inr R'"
    using Cons.prems by (intro Cons.IH) auto
  then show ?case using g1 g2 g3 by (simp add: Let_def)
qed

lemma digits_value_snoc: "digits_value base (ds @ [d]) = digits_value base ds * base + d"
  by (simp add: digits_value_def)

lemma digits_value_lower:
  assumes "1 \<le> base"
  shows "ds \<noteq> [] \<Longrightarrow> 1 \<le> hd ds \<Longrightarrow> \<forall>d\<in>set ds. 0 \<le> d
         \<Longrightarrow> base ^ (length ds - 1) \<le> digits_value base ds"
proof (induction ds rule: rev_induct)
  case Nil
  then show ?case by simp
next
  case (snoc d ds)
  show ?case
  proof (cases "ds = []")
    case True
    then show ?thesis using snoc.prems by (simp add: digits_value_def)
  next
    case False
    then have "1 \<le> hd ds" using snoc.prems by simp
    then have ih: "base ^ (length ds - 1) \<le> digits_value base ds"
      using snoc False by simp
    have "base ^ (length (ds @ [d]) - 1) = base ^ (length ds - 1) * base"
      using False by (cases ds) simp_all
    also have "\<dots> \<le> digits_value base ds * base"
      using ih assms by (intro mult_right_mono) auto
    also have "\<dots> \<le> digits_value base (ds @ [d])"
      using snoc.prems by (simp add: digits_value_snoc)
    finally show ?thesis .
  qed
qed

lemma bit_length_nat_bound: "n < 2 ^ bit_length_nat n"
proof (induction n rule: bit_length_nat.induct)
  case (1 n)
  show ?case
  proof (cases "n = 0")
    case True
    then show ?thesis by simp
  next
    case False
    with 1 have "n div 2 < 2 ^ bit_length_nat (n div 2)" by simp
    then have "n < 2 * 2 ^ bit_length_nat (n div 2)" by linarith
    then show ?thesis using False by (subst bit_length_nat.simps) simp
  qed
qed

lemma below_psize_bits:
  assumes "CurveGroup_init p a b = Inr ec" and "m < p"
  shows "m < 2 ^ nat (psize ec * 8)" and "0 \<le> psize ec"
proof -
  note f = CurveGroup_init_fields[OF assms(1)]
  let ?bl = "bit_length_nat (nat p)"
  have p: "p < 2 ^ ?bl"
  proof -
    have "nat p < 2 ^ ?bl" by (rule bit_length_nat_bound)
    then have "int (nat p) < int (2 ^ ?bl)" by (rule iffD2[OF of_nat_less_iff])
    then show ?thesis using f(6) by simp
  qed
  have ps: "psize ec = (int ?bl + 7) div 8" using f(4) f(6) by (simp add: bit_length_def)
  then show "0 \<le> psize ec" by simp
  have "int ?bl \<le> psize ec * 8" unfolding ps by presburger
  then have "?bl \<le> nat (psize ec * 8)" by simp
  then have "(2::int) ^ ?bl \<le> 2 ^ nat (psize ec * 8)" by (intro power_increasing) auto
  then show "m < 2 ^ nat (psize ec * 8)" using p assms(2) by linarith
qed

lemma fixed_window_cached_run:
  assumes w: "0 < w" and m: "0 \<le> m"
    and T: "cached_multiples_fixwind Q ec w = Inr T"
    and lenT: "length T = nat ((psize ec * 8) div w + 1)"
    and shape: "\<forall>S\<in>set T. length S = 2 ^ nat w"
    and conv: "convert_number_to_base m (2 ^ nat w) = Some (Inr ds)"
    and ne: "ds \<noteq> []"
    and rng: "\<forall>d\<in>set ds. 0 \<le> d \<and> d < 2 ^ nat w"
  shows "int (length ds) \<le> (psize ec * 8) div w + 1 \<Longrightarrow>
           \<exists>R. mult_fixed_window_cached m Q ec w = Some (Inr R)"
    and "(psize ec * 8) div w + 1 < int (length ds) \<Longrightarrow>
           mult_fixed_window_cached m Q ec w = Some (Inl IndexError)"
proof -
  define k where "k = int (length ds) - 1"
  have len1: "1 \<le> int (length ds)" using ne by (cases ds) simp_all
  have unfold: "mult_fixed_window_cached m Q ec w =
     (case getitem T k of
        Inl e \<Rightarrow> Some (Inl e)
      | Inr Tk \<Rightarrow>
          (case getitem ds 0 of
             Inl e \<Rightarrow> Some (Inl e)
           | Inr d0 \<Rightarrow>
               (case getitem Tk d0 of
                  Inl e \<Rightarrow> Some (Inl e)
                | Inr R \<Rightarrow> Some (fixed_window_cached_loop [1..int (length ds) - 1] ds T k R ec))))"
    using w m T conv unfolding mult_fixed_window_cached_def k_def by (simp add: Let_def)
  {
    assume le: "int (length ds) \<le> (psize ec * 8) div w + 1"
    have "int (length T) = (psize ec * 8) div w + 1" using le len1 lenT by linarith
    then have k: "0 \<le> k" "k < int (length T)" using le len1 unfolding k_def by linarith+
    then have g1: "getitem T k = Inr (T ! nat k)" by (rule getitem_in_range)
    have "nat k < length T" using k by simp
    then have S: "int (length (T ! nat k)) = 2 ^ nat w" using shape by simp
    have g2: "getitem ds 0 = Inr (ds ! 0)" using ne by (simp add: getitem_def)
    have "ds ! 0 \<in> set ds" using ne by simp
    then have d0: "0 \<le> ds ! 0" "ds ! 0 < 2 ^ nat w" using rng by auto
    have g3: "getitem (T ! nat k) (ds ! 0) = Inr (T ! nat k ! nat (ds ! 0))"
      using d0 S by (intro getitem_in_range) auto
    have js: "\<forall>i\<in>set [1..int (length ds) - 1]. 0 \<le> i \<and> i < int (length ds)" by auto
    have ljs: "int (length [1..int (length ds) - 1]) \<le> k" using len1 ne unfolding k_def by simp
    have kT: "k \<le> int (length T)" using k by simp
    from fixed_window_cached_loop_in_bounds[OF shape rng js ljs kT]
    obtain R' where "fixed_window_cached_loop [1..int (length ds) - 1] ds T k
        (T ! nat k ! nat (ds ! 0)) ec = Inr R'" by blast
    then have "mult_fixed_window_cached m Q ec w = Some (Inr R')"
      by (simp add: unfold g1 g2 g3)
    then show "\<exists>R. mult_fixed_window_cached m Q ec w = Some (Inr R)" by blast
  }
  {
    assume gt: "(psize ec * 8) div w + 1 < int (length ds)"
    then have "int (length T) \<le> k" using lenT len1 unfolding k_def by linarith
    then have "getitem T k = Inl IndexError" by (rule getitem_too_large)
    then show "mult_fixed_window_cached m Q ec w = Some (Inl IndexError)"
      by (simp add: unfold)
  }
qed

lemma digits_below_modulus:
  assumes w: "0 < w" and m: "0 \<le> m"
    and init: "CurveGroup_init p a b = Inr ec" and mp: "m < p"
    and ne: "ds \<noteq> []"
    and rng: "\<forall>d\<in>set ds. 0 \<le> d \<and> d < 2 ^ nat w"
    and val: "digits_value (2 ^ nat w) ds = m"
    and lead: "0 < m \<longrightarrow> hd ds \<noteq> 0"
    and zero: "m = 0 \<longrightarrow> ds = [0]"
  shows "int (length ds) \<le> (psize ec * 8) div w + 1"
proof (cases "m = 0")
  case True
  have "0 \<le> psize ec" using below_psize_bits(2)[OF init mp] .
  then have "0 \<le> (psize ec * 8) div w" using w by (simp add: pos_imp_zdiv_nonneg_iff)
  then show ?thesis using True zero by simp
next
  case False
  then have mpos: "0 < m" using m by simp
  note ps = below_psize_bits[OF init mp]
  have "hd ds \<in> set ds" using ne by simp
  then have "0 \<le> hd ds" using rng by blast
  then have hd1: "1 \<le> hd ds" using lead mpos by simp
  have nonneg: "\<forall>d\<in>set ds. 0 \<le> d" using rng by blast
  have "((2::int) ^ nat w) ^ (length ds - 1) \<le> digits_value (2 ^ nat w) ds"
    by (rule digits_value_lower[OF _ ne hd1 nonneg]) simp
  then have "(2::int) ^ (nat w * (length ds - 1)) < 2 ^ nat (psize ec * 8)"
    using val ps(1) by (simp add: power_mult)
  then have "nat w * (length ds - 1) < nat (psize ec * 8)" by simp
  then have "int (nat w * (length ds - 1)) < int (nat (psize ec * 8))" by (rule iffD2[OF of_nat_less_iff])
  then have lt: "w * (int (length ds) - 1) < psize ec * 8"
    using w ps(2) ne by (cases ds) simp_all
  have "int (length ds) - 1 \<le> (psize ec * 8) div w"
  proof -
    have "w * (int (length ds) - 1) \<le> psize ec * 8" using lt by simp
    then have "(w * (int (length ds) - 1)) div w \<le> (psize ec * 8) div w"
      using w by (intro zdiv_mono1) auto
    then show ?thesis using w by simp
  qed
  then show ?thesis by simp
qed

text \<open>C10. For a window width \<open>w > 0\<close> the table of \<^verbatim>\<open>cached_multiples_fixwind\<close> has
  exactly \<^verbatim>\<open>(ec.psize * 8) // w + 1\<close> sublists of \<open>2\<^sup>w\<close> entries each. For a scalar \<open>m \<ge> 0\<close>
  with base-\<open>2\<^sup>w\<close> digits \<open>ds\<close>, \<^verbatim>\<open>_mult_fixed_window_cached\<close> returns a point when the
  number of digits is at most that count, and raises \<^verbatim>\<open>IndexError\<close> when it is larger; the
  count suffices for every \<open>m < p\<close>.\<close>

theorem fixed_window_cached_table_bounds:
  assumes "0 < w" and "0 \<le> m"
  shows "\<exists>T ds. cached_multiples_fixwind Q ec w = Inr T
          \<and> length T = nat ((psize ec * 8) div w + 1)
          \<and> (\<forall>S\<in>set T. length S = 2 ^ nat w)
          \<and> convert_number_to_base m (2 ^ nat w) = Some (Inr ds)
          \<and> (int (length ds) \<le> (psize ec * 8) div w + 1 \<longrightarrow>
                (\<exists>R. mult_fixed_window_cached m Q ec w = Some (Inr R)))
          \<and> ((psize ec * 8) div w + 1 < int (length ds) \<longrightarrow>
                mult_fixed_window_cached m Q ec w = Some (Inl IndexError))
          \<and> (\<forall>p a b. CurveGroup_init p a b = Inr ec \<and> m < p \<longrightarrow>
                int (length ds) \<le> (psize ec * 8) div w + 1)"
proof -
  from cached_multiples_fixwind_shape[OF assms(1), of Q ec] obtain T where
    T: "cached_multiples_fixwind Q ec w = Inr T"
    and lenT: "length T = nat ((psize ec * 8) div w + 1)"
    and shape: "\<forall>S\<in>set T. length S = 2 ^ nat w" by blast
  have base: "(2::int) \<le> 2 ^ nat w"
  proof -
    obtain v where "nat w = Suc v" using assms(1) by (cases "nat w") auto
    then show ?thesis by simp
  qed
  from convert_digits[OF assms(2) base] obtain ds where
    conv: "convert_number_to_base m (2 ^ nat w) = Some (Inr ds)"
    and ne: "ds \<noteq> []"
    and rng: "\<forall>d\<in>set ds. 0 \<le> d \<and> d < 2 ^ nat w"
    and val: "digits_value (2 ^ nat w) ds = m"
    and lead: "0 < m \<longrightarrow> hd ds \<noteq> 0"
    and zero: "m = 0 \<longrightarrow> ds = [0]" by blast
  note run = fixed_window_cached_run[OF assms T lenT shape conv ne rng]
  have small: "int (length ds) \<le> (psize ec * 8) div w + 1"
    if "CurveGroup_init p a b = Inr ec" "m < p" for p a b
    using digits_below_modulus[OF assms that ne rng val lead zero] .
  show ?thesis
    using T lenT shape conv run small by (intro exI[of _ T] exI[of _ ds]) blast
qed

theorem fixed_window_cached_table_bounds_witness:
  "(0::int) < 4 \<and> (0::int) \<le> 300
   \<and> CurveGroup_init 13 0 2 = Inr ec13_19
   \<and> convert_number_to_base 300 (2 ^ nat 4) = Some (Inr [1, 2, 12])
   \<and> (psize ec13_19 * 8) div 4 + 1 = 3
   \<and> (\<exists>R. mult_fixed_window_cached 300 (1, 9, 1) ec13_19 4 = Some (Inr R))
   \<and> convert_number_to_base 4096 (2 ^ nat 4) = Some (Inr [1, 0, 0, 0])
   \<and> mult_fixed_window_cached 4096 (1, 9, 1) ec13_19 4 = Some (Inl IndexError)"
proof -
  have w: "(0::int) < 4" and m: "(0::int) \<le> 300" and m': "(0::int) \<le> 4096" by simp_all
  have c1: "convert_number_to_base 300 (2 ^ nat 4) = Some (Inr [1, 2, 12])" by code_simp
  have c2: "convert_number_to_base 4096 (2 ^ nat 4) = Some (Inr [1, 0, 0, 0])" by code_simp
  have n: "(psize ec13_19 * 8) div 4 + 1 = 3" by (simp add: ec13_19_def)
  have i: "CurveGroup_init 13 0 2 = Inr ec13_19" by code_simp
  from fixed_window_cached_table_bounds[OF w m, of "(1, 9, 1)" ec13_19] c1 n
  have a: "\<exists>R. mult_fixed_window_cached 300 (1, 9, 1) ec13_19 4 = Some (Inr R)" by auto
  from fixed_window_cached_table_bounds[OF w m', of "(1, 9, 1)" ec13_19] c2 n
  have b: "mult_fixed_window_cached 4096 (1, 9, 1) ec13_19 4 = Some (Inl IndexError)" by auto
  show ?thesis using w m c1 c2 n i a b by simp
qed

section \<open>Multi-scalar multiplication: preconditions\<close>

lemma collect_negative:
  "length ns = length Ps \<Longrightarrow> \<exists>n\<in>set ns. n < 0 \<Longrightarrow> multi_mult_collect ns Ps x = Inl ValueError"
proof (induction ns Ps arbitrary: x rule: list_induct2)
  case Nil
  then show ?case by simp
next
  case (Cons n ns P Ps)
  show ?case
  proof (cases "n < 0")
    case True
    then show ?thesis by simp
  next
    case False
    then have "\<exists>n\<in>set ns. n < 0" using Cons.prems by auto
    then show ?thesis using Cons.IH False by simp
  qed
qed

lemma collect_all_zero:
  "\<forall>n\<in>set ns. n = 0 \<Longrightarrow> multi_mult_collect ns Ps x = Inr x"
  by (induction ns Ps x rule: multi_mult_collect.induct) simp_all

lemma collect_drops_zeros:
  "length ns = length Ps \<Longrightarrow>
     multi_mult_collect ns Ps x =
     multi_mult_collect (map fst (filter (\<lambda>(n, P). n \<noteq> 0) (zip ns Ps)))
                        (map snd (filter (\<lambda>(n, P). n \<noteq> 0) (zip ns Ps))) x"
  by (induction ns Ps arbitrary: x rule: list_induct2) simp_all

lemma multi_mult_drops_zeros:
  assumes "length ns = length Ps"
  shows "multi_mult ns Ps ec =
     multi_mult (map fst (filter (\<lambda>(n, P). n \<noteq> 0) (zip ns Ps)))
                (map snd (filter (\<lambda>(n, P). n \<noteq> 0) (zip ns Ps))) ec"
  using assms collect_drops_zeros[OF assms] by (simp add: multi_mult_def)

lemma mult_zero: "mult 0 G ec = Some (Inr INFJ)"
proof -
  from multiples_table[of 16 G ec] obtain T where
    T: "multiples G 16 ec = Inr T" "length T = nat 16" "T ! 0 = INFJ" by auto
  have c: "convert_number_to_base 0 16 = Some (Inr [0])" by (rule convert_zero) simp
  have g: "getitem T 0 = Inr INFJ" using T(2,3) by (simp add: getitem_def)
  show ?thesis using T(1) c g by (simp add: mult_def mult_fixed_window_def getitem_def)
qed

lemma mult_negative: "k < 0 \<Longrightarrow> mult k G ec = Some (Inl ValueError)"
  by (simp add: mult_def mult_fixed_window_def)

lemma multi_mult_single:
  "multi_mult [k, 0, 0, 0] [G, H, G, H] ec = mult k G ec"
proof -
  consider "k < 0" | "k = 0" | "0 < k" by linarith
  then show ?thesis
  proof cases
    case 1
    then show ?thesis by (simp add: multi_mult_def mult_negative)
  next
    case 2
    then show ?thesis by (simp add: multi_mult_def mult_zero)
  next
    case 3
    have "multi_mult_loop ec [(- k, G)] = Some [(- k, G)]"
      by (subst multi_mult_loop.simps) simp
    then show ?thesis using 3 by (simp add: multi_mult_def)
  qed
qed

text \<open>C5. \<^verbatim>\<open>_multi_mult\<close> raises when the two sequences differ in length; raises when a
  scalar is negative; gives the same result as on the input with the zero scalars (and
  their points) removed, so that \<^verbatim>\<open>_multi_mult([k, 0, 0, 0], [G, H, G, H])\<close> is
  \<^verbatim>\<open>_mult(k, G)\<close> for every \<open>k\<close>; and returns \<^verbatim>\<open>INFJ\<close> when every scalar is zero.\<close>

theorem multi_mult_preconditions:
  "(length scalars \<noteq> length JPoints \<longrightarrow> multi_mult scalars JPoints ec = Some (Inl ValueError))
   \<and> (length scalars = length JPoints \<and> (\<exists>n\<in>set scalars. n < 0) \<longrightarrow>
         multi_mult scalars JPoints ec = Some (Inl ValueError))
   \<and> (length scalars = length JPoints \<longrightarrow>
         multi_mult scalars JPoints ec =
         multi_mult (map fst (filter (\<lambda>(n, P). n \<noteq> 0) (zip scalars JPoints)))
                    (map snd (filter (\<lambda>(n, P). n \<noteq> 0) (zip scalars JPoints))) ec)
   \<and> multi_mult [k, 0, 0, 0] [G, H, G, H] ec = mult k G ec
   \<and> (length scalars = length JPoints \<and> (\<forall>n\<in>set scalars. n = 0) \<longrightarrow>
         multi_mult scalars JPoints ec = Some (Inr INFJ))"
proof (intro conjI impI)
  assume "length scalars \<noteq> length JPoints"
  then show "multi_mult scalars JPoints ec = Some (Inl ValueError)"
    by (simp add: multi_mult_def)
next
  assume "length scalars = length JPoints \<and> (\<exists>n\<in>set scalars. n < 0)"
  then show "multi_mult scalars JPoints ec = Some (Inl ValueError)"
    using collect_negative[of scalars JPoints "[]"] by (simp add: multi_mult_def)
next
  assume "length scalars = length JPoints"
  then show "multi_mult scalars JPoints ec =
         multi_mult (map fst (filter (\<lambda>(n, P). n \<noteq> 0) (zip scalars JPoints)))
                    (map snd (filter (\<lambda>(n, P). n \<noteq> 0) (zip scalars JPoints))) ec"
    by (rule multi_mult_drops_zeros)
next
  show "multi_mult [k, 0, 0, 0] [G, H, G, H] ec = mult k G ec" by (rule multi_mult_single)
next
  assume "length scalars = length JPoints \<and> (\<forall>n\<in>set scalars. n = 0)"
  then show "multi_mult scalars JPoints ec = Some (Inr INFJ)"
    using collect_all_zero[of scalars JPoints "[]"] by (simp add: multi_mult_def)
qed

theorem multi_mult_preconditions_witness:
  "multi_mult [1, 2] [(1, 9, 1)] ec13_19 = Some (Inl ValueError)
   \<and> multi_mult [3, - 1] [(1, 9, 1), (2, 6, 1)] ec13_19 = Some (Inl ValueError)
   \<and> multi_mult [0, 3] [(1, 9, 1), (2, 6, 1)] ec13_19 = multi_mult [3] [(2, 6, 1)] ec13_19
   \<and> multi_mult [5, 0, 0, 0] [(1, 9, 1), (2, 6, 1), (1, 9, 1), (2, 6, 1)] ec13_19
       = mult 5 (1, 9, 1) ec13_19
   \<and> mult 5 (1, 9, 1) ec13_19 = Some (Inr (2, 7, 9))
   \<and> multi_mult [0, 0] [(1, 9, 1), (2, 6, 1)] ec13_19 = Some (Inr INFJ)"
proof -
  have 1: "multi_mult [1, 2] [(1, 9, 1)] ec13_19 = Some (Inl ValueError)"
    using multi_mult_preconditions[of "[1, 2]" "[(1, 9, 1)]" ec13_19] by simp
  have 2: "multi_mult [3, - 1] [(1, 9, 1), (2, 6, 1)] ec13_19 = Some (Inl ValueError)"
    using multi_mult_preconditions[of "[3, - 1]" "[(1, 9, 1), (2, 6, 1)]" ec13_19] by simp
  have 3: "multi_mult [0, 3] [(1, 9, 1), (2, 6, 1)] ec13_19 = multi_mult [3] [(2, 6, 1)] ec13_19"
    using multi_mult_preconditions[of "[0, 3]" "[(1, 9, 1), (2, 6, 1)]" ec13_19] by simp
  have 4: "multi_mult [5, 0, 0, 0] [(1, 9, 1), (2, 6, 1), (1, 9, 1), (2, 6, 1)] ec13_19
       = mult 5 (1, 9, 1) ec13_19"
    using multi_mult_preconditions[of "[]" "[]" ec13_19 5 "(1, 9, 1)" "(2, 6, 1)"] by simp
  have 5: "mult 5 (1, 9, 1) ec13_19 = Some (Inr (2, 7, 9))" by code_simp
  have 6: "multi_mult [0, 0] [(1, 9, 1), (2, 6, 1)] ec13_19 = Some (Inr INFJ)"
    using multi_mult_preconditions[of "[0, 0]" "[(1, 9, 1), (2, 6, 1)]" ec13_19 0 "(1, 9, 1)" "(1, 9, 1)",
        THEN conjunct2, THEN conjunct2, THEN conjunct2, THEN conjunct2]
    by simp
  show ?thesis using 1 2 3 4 5 6 by simp
qed

section \<open>Arithmetic modulo a prime\<close>

lemma is_prime_divisors:
  assumes "is_prime p" and "d dvd p" and "0 < d"
  shows "d = 1 \<or> d = p"
proof (rule ccontr)
  assume n: "\<not> (d = 1 \<or> d = p)"
  have ppos: "0 < p" using assms(1) by (simp add: is_prime_def)
  have "d \<le> p" using assms(2) ppos by (rule zdvd_imp_le)
  then have "d \<in> set [2..p - 1]" using n assms(3) by simp
  then have "p mod d \<noteq> 0" using assms(1) by (simp add: is_prime_def list_all_iff)
  then show False using assms(2) by (simp add: dvd_eq_mod_eq_0)
qed

lemma is_prime_coprime:
  assumes "is_prime p" and "\<not> p dvd a"
  shows "coprime p a"
proof -
  have ppos: "0 < p" using assms(1) by (simp add: is_prime_def)
  have g: "0 < gcd p a" using ppos by (simp add: gcd_pos_int)
  have "gcd p a dvd p" by simp
  from is_prime_divisors[OF assms(1) this g] have "gcd p a = 1"
  proof
    assume "gcd p a = p"
    then have "p dvd a" by (metis gcd_dvd2)
    then show ?thesis using assms(2) by simp
  qed simp
  then show ?thesis by (simp add: coprime_iff_gcd_eq_1)
qed

lemma is_prime_dvd_mult:
  assumes "is_prime p" and "p dvd a * b"
  shows "p dvd a \<or> p dvd b"
proof (cases "p dvd a")
  case False
  then have "coprime p a" by (rule is_prime_coprime[OF assms(1)])
  then have "p dvd b" using assms(2) by (simp add: coprime_dvd_mult_right_iff)
  then show ?thesis by simp
qed simp

lemma is_prime_dvd_power:
  assumes "is_prime p" and "p dvd a ^ n"
  shows "p dvd a"
  using assms(2)
proof (induction n)
  case 0
  then have "\<bar>p\<bar> = 1" by simp
  then show ?case using assms(1) by (simp add: is_prime_def)
next
  case (Suc n)
  then have "p dvd a * a ^ n" by simp
  from is_prime_dvd_mult[OF assms(1) this] show ?case using Suc.IH by blast
qed

lemma is_prime_dvd_binomial:
  assumes "is_prime p" and "j < n" and "int (Suc n) = p"
  shows "p dvd int (Suc n choose Suc j)"
proof -
  have "int (Suc n) * int (n choose j) = int (Suc n choose Suc j) * int (Suc j)"
    using Suc_times_binomial_eq[of n j] by (metis of_nat_mult)
  then have "p dvd int (Suc n choose Suc j) * int (Suc j)"
    using assms(3) by (metis dvd_triv_left)
  from is_prime_dvd_mult[OF assms(1) this] show ?thesis
  proof
    assume "p dvd int (Suc j)"
    moreover have "0 < int (Suc j)" "int (Suc j) < p" using assms(2,3) by simp_all
    ultimately show ?thesis using zdvd_not_zless by blast
  qed
qed

lemma fermat_step:
  assumes "is_prime p"
  shows "(a + 1) ^ nat p mod p = (a ^ nat p + 1) mod p"
proof -
  have ppos: "1 < p" using assms by (simp add: is_prime_def)
  obtain n where n: "nat p = Suc n" using ppos by (cases "nat p") auto
  then have np: "int (Suc n) = p" using ppos by linarith
  define f where "f k = int (Suc n choose k) * a ^ k" for k
  have "(a + 1) ^ Suc n = (\<Sum>k\<le>Suc n. f k)"
    unfolding f_def using binomial_ring[of a 1 "Suc n"] by simp
  also have "\<dots> = f (Suc n) + (\<Sum>k\<le>n. f k)" by simp
  also have "(\<Sum>k\<le>n. f k) = f 0 + (\<Sum>i<n. f (Suc i))" by (rule sum.atMost_shift)
  finally have expand: "(a + 1) ^ Suc n = a ^ Suc n + 1 + (\<Sum>i<n. f (Suc i))"
    by (simp add: f_def)
  have "p dvd (\<Sum>i<n. f (Suc i))"
  proof (rule dvd_sum)
    fix i assume "i \<in> {..<n}"
    then have "i < n" by simp
    from is_prime_dvd_binomial[OF assms this np] show "p dvd f (Suc i)"
      unfolding f_def by (rule dvd_mult2)
  qed
  then obtain c where "(\<Sum>i<n. f (Suc i)) = p * c" by (auto simp: dvd_def)
  then have "(a + 1) ^ Suc n = (a ^ Suc n + 1) + p * c" using expand by simp
  then have "(a + 1) ^ Suc n mod p = (a ^ Suc n + 1) mod p" by (metis mod_mult_self2)
  then show ?thesis unfolding n .
qed

lemma fermat_power_p:
  assumes "is_prime p"
  shows "(int k) ^ nat p mod p = int k mod p"
proof (induction k)
  case 0
  have "0 < nat p" using assms by (simp add: is_prime_def)
  then show ?case by (simp add: power_0_left)
next
  case (Suc k)
  have "(int k + 1) ^ nat p mod p = (int k ^ nat p + 1) mod p" by (rule fermat_step[OF assms])
  also have "\<dots> = (int k ^ nat p mod p + 1) mod p" by (simp add: mod_simps)
  also have "\<dots> = (int k mod p + 1) mod p" unfolding Suc.IH ..
  also have "\<dots> = (int k + 1) mod p" by (simp add: mod_simps)
  finally show ?case by (simp add: add.commute)
qed

lemma fermat_little:
  assumes "is_prime p" and "\<not> p dvd a"
  shows "a ^ (nat p - 1) mod p = 1"
proof -
  have ppos: "1 < p" using assms(1) by (simp add: is_prime_def)
  define b where "b = a mod p"
  have b0: "0 \<le> b" unfolding b_def using ppos by simp
  have nb: "\<not> p dvd b" unfolding b_def using assms(2) by (simp add: dvd_mod_iff)
  obtain k where k: "b = int k" using b0 by (metis nat_0_le)
  obtain n where n: "nat p = Suc n" using ppos by (cases "nat p") auto
  have "b ^ Suc n mod p = b mod p" using fermat_power_p[OF assms(1), of k] unfolding k n .
  then have "p dvd b ^ Suc n - b" by (simp add: mod_eq_dvd_iff)
  moreover have "b ^ Suc n - b = b * (b ^ n - 1)" by (simp add: algebra_simps)
  ultimately have "p dvd b * (b ^ n - 1)" by simp
  from is_prime_dvd_mult[OF assms(1) this] nb have "p dvd b ^ n - 1" by blast
  then have "b ^ n mod p = 1 mod p" by (simp add: mod_eq_dvd_iff)
  then have "b ^ n mod p = 1" using ppos by simp
  moreover have "a ^ n mod p = b ^ n mod p" unfolding b_def by (simp add: power_mod)
  ultimately show ?thesis using n by simp
qed

section \<open>Quadratic residues for \<open>p \<equiv> 3 (mod 4)\<close>\<close>

lemma legendre_symbol_residue:
  assumes "1 < p" and "0 < t" and "t < p" and "t * t mod p = r mod p" and "r mod p \<noteq> 0"
  shows "legendre_symbol r p = 1"
proof -
  have "t \<in> set [1..p - 1]" using assms(2,3) by simp
  then have "list_ex (\<lambda>v. v * v mod p = r mod p) [1..p - 1]"
    using assms(4) unfolding list_ex_iff by blast
  then show ?thesis using assms(5) by (simp add: legendre_symbol_def)
qed

lemma legendre_symbol_non_residue:
  assumes "r mod p \<noteq> 0" and "\<And>v. 0 < v \<Longrightarrow> v < p \<Longrightarrow> v * v mod p \<noteq> r mod p"
  shows "legendre_symbol r p = - 1"
proof -
  have "\<not> list_ex (\<lambda>v. v * v mod p = r mod p) [1..p - 1]"
    unfolding list_ex_iff using assms(2) by auto
  then show ?thesis using assms(1) by (simp add: legendre_symbol_def)
qed

lemma three_mod_four_exponent:
  assumes "1 < p" and "p mod 4 = 3"
  defines "e \<equiv> nat ((p + 1) div 4)"
  shows "nat p - 1 = 2 * (2 * e - 1)" and "1 \<le> e"
proof -
  have "p = 4 * ((p + 1) div 4) - 1" using assms(2) by presburger
  moreover have "1 \<le> (p + 1) div 4" using assms(1,2) by presburger
  ultimately have "int (nat p - 1) = int (2 * (2 * e - 1))" and "1 \<le> e"
    unfolding e_def using assms(1) by (simp_all add: nat_diff_distrib' of_nat_diff)
  then show "nat p - 1 = 2 * (2 * e - 1)" and "1 \<le> e" by simp_all
qed

lemma sqrt_three_mod_four:
  assumes pr: "is_prime p" and p3: "p mod 4 = 3"
    and s: "0 < s" "s < p" and a: "s * s mod p = a"
  defines "r \<equiv> a ^ nat ((p + 1) div 4) mod p"
  shows "r * r mod p = a"
    and "0 < r" and "r < p"
    and "legendre_symbol r p = 1"
    and "legendre_symbol (p - r) p = - 1"
proof -
  have p1: "1 < p" using pr by (simp add: is_prime_def)
  define e where "e = nat ((p + 1) div 4)"
  note ex = three_mod_four_exponent[OF p1 p3, folded e_def]
  have ns: "\<not> p dvd s" using s zdvd_not_zless by blast
  have a_range: "0 \<le> a" "a < p" using a p1 by auto
  have fs: "s ^ (2 * (2 * e - 1)) mod p = 1"
    using fermat_little[OF pr ns] unfolding ex(1) .
  have e2: "2 * e = 2 * (2 * e - 1) - (2 * e - 1) + 1" "4 * e = 2 * (2 * e - 1) + 2"
    using ex(2) by simp_all
  \<comment> \<open>the root squares to \<open>a\<close>\<close>
  have "r * r mod p = (a ^ e) * (a ^ e) mod p"
    unfolding r_def e_def by (simp add: mod_mult_eq)
  also have "\<dots> = ((s * s) ^ e) * ((s * s) ^ e) mod p"
  proof -
    have "(s * s mod p) ^ e mod p = (s * s) ^ e mod p" by (rule power_mod)
    then have h: "a ^ e mod p = (s * s) ^ e mod p" unfolding a .
    show ?thesis by (rule mod_mult_cong[OF h h])
  qed
  also have "((s * s) ^ e) * ((s * s) ^ e) = s ^ (4 * e)"
  proof -
    have "(s * s) ^ e = s ^ (2 * e)" by (simp add: power_mult power2_eq_square)
    then have "((s * s) ^ e) * ((s * s) ^ e) = s ^ (2 * e + 2 * e)" by (simp only: power_add)
    then show ?thesis by simp
  qed
  also have "s ^ (4 * e) = s ^ (2 * (2 * e - 1)) * (s * s)"
    unfolding e2(2) by (simp add: power_add power2_eq_square)
  also have "s ^ (2 * (2 * e - 1)) * (s * s) mod p = (s ^ (2 * (2 * e - 1)) mod p) * (s * s) mod p"
    by (simp add: mod_mult_left_eq)
  also have "\<dots> = a" unfolding fs using a by simp
  finally show rr: "r * r mod p = a" .
  \<comment> \<open>it is not zero\<close>
  have na: "\<not> p dvd a"
  proof
    assume "p dvd a"
    then have "a mod p = 0" by (simp add: dvd_eq_mod_eq_0)
    moreover have "a mod p = a" using a_range by simp
    ultimately have "s * s mod p = 0" using a by simp
    then have "p dvd s * s" by (simp add: dvd_eq_mod_eq_0)
    with is_prime_dvd_mult[OF pr] ns show False by blast
  qed
  have r_range: "0 \<le> r" "r < p" unfolding r_def using p1 by simp_all
  have "r \<noteq> 0"
  proof
    assume "r = 0"
    then have "a = 0" using rr by simp
    then show False using na by simp
  qed
  then show rpos: "0 < r" and "r < p" using r_range by simp_all
  \<comment> \<open>it is a square\<close>
  define t where "t = s ^ e mod p"
  have t_range: "0 \<le> t" "t < p" unfolding t_def using p1 by simp_all
  have "\<not> p dvd s ^ e" using is_prime_dvd_power[OF pr] ns by blast
  then have "t \<noteq> 0" unfolding t_def by (simp add: dvd_eq_mod_eq_0)
  then have tpos: "0 < t" using t_range by simp
  have "t * t mod p = (s ^ e) * (s ^ e) mod p" unfolding t_def by (simp add: mod_mult_eq)
  also have "(s ^ e) * (s ^ e) = (s * s) ^ e" by (simp add: power_mult_distrib)
  also have "(s * s) ^ e mod p = (s * s mod p) ^ e mod p" by (simp add: power_mod)
  also have "\<dots> = r" unfolding a r_def e_def ..
  finally have tt: "t * t mod p = r" .
  have rmod: "r mod p = r" using r_range by simp
  have "r mod p \<noteq> 0" using rmod rpos by simp
  then show "legendre_symbol r p = 1"
    using legendre_symbol_residue[OF p1 tpos t_range(2)] tt rmod by simp
  \<comment> \<open>the other root is not a square\<close>
  have nt: "\<not> p dvd t" using tpos t_range zdvd_not_zless by blast
  have ft: "t ^ (2 * (2 * e - 1)) mod p = 1"
    using fermat_little[OF pr nt] unfolding ex(1) .
  have prm: "(p - r) mod p = p - r" using rpos r_range by (simp add: zmod_zminus1_eq_if)
  show "legendre_symbol (p - r) p = - 1"
  proof (rule legendre_symbol_non_residue)
    show "(p - r) mod p \<noteq> 0" using prm r_range by simp
  next
    fix v assume v: "0 < v" "v < p"
    show "v * v mod p \<noteq> (p - r) mod p"
    proof
      assume eq: "v * v mod p = (p - r) mod p"
      have nv: "\<not> p dvd v" using v zdvd_not_zless by blast
      have fv: "v ^ (2 * (2 * e - 1)) mod p = 1"
        using fermat_little[OF pr nv] unfolding ex(1) .
      have "(p - r) mod p = (- (t * t)) mod p"
      proof -
        have "(p - r) mod p = (- r) mod p" by simp
        also have "\<dots> = (- (t * t mod p)) mod p" unfolding tt ..
        also have "\<dots> = (- (t * t)) mod p" by (simp add: mod_minus_eq)
        finally show ?thesis .
      qed
      then have "v * v mod p = (- (t * t)) mod p" using eq by simp
      then have "(v * v) ^ (2 * e - 1) mod p = (- (t * t)) ^ (2 * e - 1) mod p"
        by (metis power_mod)
      moreover have "(v * v) ^ (2 * e - 1) = v ^ (2 * (2 * e - 1))"
        by (simp add: power_mult power2_eq_square)
      moreover have "(- (t * t)) ^ (2 * e - 1) = - (t ^ (2 * (2 * e - 1)))"
      proof -
        have "odd (2 * e - 1)" using ex(2) by simp
        then have "(- (t * t)) ^ (2 * e - 1) = - ((t * t) ^ (2 * e - 1))" by simp
        also have "(t * t) ^ (2 * e - 1) = t ^ (2 * (2 * e - 1))"
          by (simp add: power_mult power2_eq_square)
        finally show ?thesis .
      qed
      ultimately have "v ^ (2 * (2 * e - 1)) mod p = (- (t ^ (2 * (2 * e - 1)))) mod p" by simp
      then have "1 = (- (t ^ (2 * (2 * e - 1)) mod p)) mod p"
        unfolding fv by (simp add: mod_minus_eq)
      then have "1 = (- 1) mod p" unfolding ft .
      moreover have "(- 1) mod p = p - 1" using p1 by (simp add: zmod_minus1)
      ultimately have "p = 2" by simp
      then show False using p3 by simp
    qed
  qed
qed

lemma y2_range: "1 < cg_p ec \<Longrightarrow> 0 \<le> y2 ec x \<and> y2 ec x < cg_p ec"
  by (simp add: y2_def)

lemma y_quadratic_residue_three_mod_four:
  assumes init: "CurveGroup_init p a b = Inr ec" and pr: "is_prime p" and p3: "p mod 4 = 3"
    and x: "0 \<le> x" "x < p"
    and s: "0 < s" "s < p" "s * s mod p = y2 ec x"
  shows "\<exists>yq yn. y_quadratic_residue ec x 1 = Inr yq \<and> 0 < yq \<and> yq < p
            \<and> yq * yq mod p = y2 ec x \<and> legendre_symbol yq p = 1
          \<and> y_quadratic_residue ec x 0 = Inr yn \<and> 0 < yn \<and> yn < p
            \<and> yn * yn mod p = y2 ec x \<and> legendre_symbol yn p = - 1"
proof -
  note f = CurveGroup_init_fields[OF init]
  have p1: "1 < p" using pr by (simp add: is_prime_def)
  define r where "r = y2 ec x ^ nat ((p + 1) div 4) mod p"
  note q = sqrt_three_mod_four[OF pr p3 s, folded r_def]
  have yr: "0 \<le> y2 ec x" "y2 ec x < p" using y2_range[of ec x] f(1) p1 by simp_all
  then have ym: "y2 ec x mod p = y2 ec x" by simp
  have sq: "mod_sqrt (y2 ec x) p = Inr r"
    using p3 q(1) ym by (simp add: mod_sqrt_def r_def Let_def)
  have yo: "y_of ec x = Inr r" using x sq f(1) by (simp add: y_of_def)
  have req: "require_p_ThreeModFour ec = Inr ()"
    using f(5) p3 by (simp add: require_p_ThreeModFour_def)
  have r1: "y_quadratic_residue ec x 1 = Inr r"
    using yo req q(4) f(1) by (simp add: y_quadratic_residue_def Let_def)
  have r0: "y_quadratic_residue ec x 0 = Inr (p - r)"
    using yo req q(4) f(1) by (simp add: y_quadratic_residue_def Let_def)
  have "(p - r) * (p - r) = r * r + p * (p - 2 * r)" by (simp add: algebra_simps)
  then have "(p - r) * (p - r) mod p = r * r mod p" by (metis mod_mult_self2)
  then have o: "(p - r) * (p - r) mod p = y2 ec x" using q(1) by simp
  have rng: "0 < p - r" "p - r < p" using q(2,3) by simp_all
  show ?thesis
    using r1 r0 q o rng by (intro exI[of _ r] exI[of _ "p - r"]) simp
qed

lemma y_quadratic_residue_wrong_prime_form:
  assumes init: "CurveGroup_init p a b = Inr ec" and "p mod 4 \<noteq> 3"
  shows "y_quadratic_residue ec x qr = Inl ValueError"
  using CurveGroup_init_fields(5)[OF init] assms(2)
  by (simp add: y_quadratic_residue_def require_p_ThreeModFour_def)

text \<open>C6. For a \<^verbatim>\<open>CurveGroup\<close> over a prime \<open>p \<equiv> 3 (mod 4)\<close> and every \<open>x\<close> in \<open>[0, p)\<close> for
  which \<open>y\<^sup>2 = x\<^sup>3 + a x + b\<close> has a nonzero root, \<^verbatim>\<open>y_quadratic_residue(x, 1)\<close> returns a root
  that is a quadratic residue and \<^verbatim>\<open>y_quadratic_residue(x, 0)\<close> a root that is not; for
  \<open>p \<notequiv> 3 (mod 4)\<close> every call raises.\<close>

theorem y_quadratic_residue_roots:
  assumes "CurveGroup_init p a b = Inr ec" and "is_prime p"
  shows "(p mod 4 = 3 \<and> 0 \<le> x \<and> x < p \<and> (\<exists>s. 0 < s \<and> s < p \<and> s * s mod p = y2 ec x) \<longrightarrow>
            (\<exists>yq yn. y_quadratic_residue ec x 1 = Inr yq \<and> 0 < yq \<and> yq < p
               \<and> yq * yq mod p = y2 ec x \<and> legendre_symbol yq p = 1
               \<and> y_quadratic_residue ec x 0 = Inr yn \<and> 0 < yn \<and> yn < p
               \<and> yn * yn mod p = y2 ec x \<and> legendre_symbol yn p = - 1))
       \<and> (p mod 4 \<noteq> 3 \<longrightarrow> (\<forall>x qr. y_quadratic_residue ec x qr = Inl ValueError))"
proof (intro conjI impI allI)
  assume h: "p mod 4 = 3 \<and> 0 \<le> x \<and> x < p \<and> (\<exists>s. 0 < s \<and> s < p \<and> s * s mod p = y2 ec x)"
  then obtain s where s: "0 < s" "s < p" "s * s mod p = y2 ec x" by blast
  from h have p3: "p mod 4 = 3" and x: "0 \<le> x" "x < p" by simp_all
  show "\<exists>yq yn. y_quadratic_residue ec x 1 = Inr yq \<and> 0 < yq \<and> yq < p
               \<and> yq * yq mod p = y2 ec x \<and> legendre_symbol yq p = 1
               \<and> y_quadratic_residue ec x 0 = Inr yn \<and> 0 < yn \<and> yn < p
               \<and> yn * yn mod p = y2 ec x \<and> legendre_symbol yn p = - 1"
    by (rule y_quadratic_residue_three_mod_four[OF assms p3 x s])
next
  fix x' qr assume "p mod 4 \<noteq> 3"
  then show "y_quadratic_residue ec x' qr = Inl ValueError"
    by (rule y_quadratic_residue_wrong_prime_form[OF assms(1)])
qed

theorem y_quadratic_residue_roots_witness:
  "CurveGroup_init 23 5 1 = Inr ec23_31 \<and> is_prime 23 \<and> (23::int) mod 4 = 3
   \<and> 4 * 4 mod 23 = y2 ec23_31 4
   \<and> y_quadratic_residue ec23_31 4 1 = Inr 4 \<and> legendre_symbol 4 23 = 1
   \<and> y_quadratic_residue ec23_31 4 0 = Inr 19 \<and> legendre_symbol 19 23 = - 1
   \<and> CurveGroup_init 13 0 2 = Inr ec13_19 \<and> is_prime 13 \<and> (13::int) mod 4 \<noteq> 3
   \<and> y_quadratic_residue ec13_19 1 1 = Inl ValueError"
proof -
  have i: "CurveGroup_init 23 5 1 = Inr ec23_31" by code_simp
  have pr: "is_prime 23" by code_simp
  have y: "4 * 4 mod 23 = y2 ec23_31 4" by code_simp
  have h: "(23::int) mod 4 = 3 \<and> (0::int) \<le> 4 \<and> (4::int) < 23
           \<and> (\<exists>s. 0 < s \<and> s < 23 \<and> s * s mod 23 = y2 ec23_31 4)"
    using y by (intro conjI exI[of _ 4]) simp_all
  have v1: "y_quadratic_residue ec23_31 4 1 = Inr 4" by code_simp
  have v0: "y_quadratic_residue ec23_31 4 0 = Inr 19" by code_simp
  from y_quadratic_residue_roots[OF i pr, of 4, THEN conjunct1, rule_format, OF h] v1 v0
  have l: "legendre_symbol 4 23 = 1 \<and> legendre_symbol 19 23 = - 1" by auto
  have i': "CurveGroup_init 13 0 2 = Inr ec13_19" by code_simp
  have pr': "is_prime 13" by code_simp
  from y_quadratic_residue_roots[OF i' pr', of 0, THEN conjunct2]
  have e: "y_quadratic_residue ec13_19 1 1 = Inl ValueError" by simp
  show ?thesis using i pr y v1 v0 l i' pr' e by simp
qed

section \<open>The primality test of the constructor\<close>

text \<open>The Fermat test to base 2 accepts the composite 341.\<close>

lemma CurveGroup_init_accepts_pseudoprime:
  "CurveGroup_init 341 0 2 = Inr \<lparr>cg_p = 341, cg_a = 0, cg_b = 2, psize = 2, pIsThreeModFour = False\<rparr>
   \<and> \<not> is_prime 341 \<and> (341::int) = 11 * 31"
  by code_simp

section \<open>The chord-and-tangent law on the points of the curve\<close>

text \<open>Congruences modulo \<open>p\<close> are written as divisibility of a difference. The sum and
  the double of points of the curve are points of the curve.\<close>

lemma finv_inverse:
  assumes "is_prime p" and "\<not> p dvd a"
  shows "p dvd a * finv p a - 1"
proof -
  have p2: "2 \<le> p" using assms(1) by (simp add: is_prime_def)
  have "a * a ^ nat (p - 2) = a ^ (nat p - 1)"
  proof -
    have "nat p - 1 = Suc (nat (p - 2))" using p2 by simp
    then show ?thesis by simp
  qed
  then have "a * a ^ nat (p - 2) mod p = 1" using fermat_little[OF assms] by simp
  then have "a * finv p a mod p = 1 mod p" using p2 by (simp add: finv_def mod_mult_right_eq)
  then show ?thesis by (simp add: mod_eq_dvd_iff)
qed

lemma mod_dvd_diff: "(p::int) dvd a mod p - a"
  by (simp add: mod_eq_dvd_iff[symmetric])

lemma represents_finite:
  "represents ec (X, Y, Z) (Some (x, y)) \<longleftrightarrow>
     \<not> cg_p ec dvd Z \<and> cg_p ec dvd x * (Z * Z) - X \<and> cg_p ec dvd y * (Z * Z * Z) - Y"
  by (simp add: represents_def mod_eq_dvd_iff dvd_eq_mod_eq_0)

lemma represents_cong:
  assumes "represents ec (X, Y, Z) (Some (x, y))"
    and "cg_p ec dvd X' - X" and "cg_p ec dvd Y' - Y" and "cg_p ec dvd Z' - Z"
    and "cg_p ec dvd x' - x" and "cg_p ec dvd y' - y"
  shows "represents ec (X', Y', Z') (Some (x', y'))"
proof -
  let ?p = "cg_p ec"
  from assms(1) have z: "\<not> ?p dvd Z" and rx: "?p dvd x * (Z * Z) - X" and ry: "?p dvd y * (Z * Z * Z) - Y"
    by (simp_all add: represents_finite)
  have 1: "\<not> ?p dvd Z'"
  proof
    assume "?p dvd Z'"
    with assms(4) have "?p dvd Z" by algebra
    with z show False ..
  qed
  have 2: "?p dvd x' * (Z' * Z') - X'" using rx assms(2,4,5) by algebra
  have 3: "?p dvd y' * (Z' * Z' * Z') - Y'" using ry assms(3,4,6) by algebra
  show ?thesis using 1 2 3 by (simp add: represents_finite)
qed

lemma proper_iff:
  "proper ec (X, Y, Z) \<longleftrightarrow> (Z = 0 \<longrightarrow> \<not> cg_p ec dvd X \<and> cg_p ec dvd Y * Y - X * X * X)"
  by (simp add: proper_def mod_eq_dvd_iff dvd_eq_mod_eq_0)

lemma slope:
  assumes "is_prime p" and "\<not> p dvd d"
  shows "p dvd (n * finv p d mod p) * d - n"
proof -
  have 1: "p dvd d * finv p d - 1" using assms by (rule finv_inverse)
  have 2: "p dvd n * finv p d mod p - n * finv p d" by (rule mod_dvd_diff)
  from 1 2 show ?thesis by algebra
qed

lemma is_prime_dvd_mult3:
  assumes "is_prime p" and "p dvd a * b * c"
  shows "p dvd a \<or> p dvd b \<or> p dvd c"
  using is_prime_dvd_mult[OF assms(1), of "a * b" c] is_prime_dvd_mult[OF assms(1), of a b] assms(2)
  by blast

lemma on_curve_finite:
  "on_curve ec (Some (x, y)) \<longleftrightarrow>
     0 \<le> x \<and> x < cg_p ec \<and> 0 \<le> y \<and> y < cg_p ec
     \<and> cg_p ec dvd y * y - ((x * x + cg_a ec) * x + cg_b ec)"
  by (simp add: on_curve_def y2_def power2_eq_square mod_eq_dvd_iff[symmetric])

lemma in_range_not_dvd: "0 < y \<Longrightarrow> y < p \<Longrightarrow> \<not> (p::int) dvd y"
  by (simp add: zdvd_not_zless)

lemma in_range_cong_eq:
  assumes "0 \<le> x" "x < p" "0 \<le> u" "u < p" "(p::int) dvd x - u"
  shows "x = u"
proof -
  have "x mod p = u mod p" using assms(5) by (simp add: mod_eq_dvd_iff)
  then show ?thesis using assms(1-4) by simp
qed

lemma CurveGroup_init_nonsingular:
  assumes "CurveGroup_init p a b = Inr ec"
  shows "\<not> cg_p ec dvd 4 * cg_a ec * cg_a ec * cg_a ec + 27 * cg_b ec * cg_b ec"
    and "\<not> cg_p ec dvd 2"
proof -
  from assms have d: "(4 * a * a * a + 27 * b * b) mod p \<noteq> 0" and o: "p mod 2 = 1" and p2: "2 \<le> p"
    and e: "cg_p ec = p" "cg_a ec = a" "cg_b ec = b"
    by (auto simp: CurveGroup_init_def split: if_splits)
  show "\<not> cg_p ec dvd 4 * cg_a ec * cg_a ec * cg_a ec + 27 * cg_b ec * cg_b ec"
    using d e by (simp add: dvd_eq_mod_eq_0)
  show "\<not> cg_p ec dvd 2"
  proof
    assume "cg_p ec dvd 2"
    then have "p dvd 2" using e by simp
    then have "p \<le> 2" using zdvd_imp_le[of p 2] by simp
    then have "p = 2" using p2 by simp
    then show False using o by simp
  qed
qed

lemma ec_double_on_curve:
  assumes pr: "is_prime (cg_p ec)" and odd: "\<not> cg_p ec dvd 2" and oc: "on_curve ec P"
  shows "on_curve ec (ec_double ec P)"
proof (cases P)
  case None
  then show ?thesis by (simp add: ec_double_def on_curve_def)
next
  case (Some q)
  obtain x y where q: "q = (x, y)" by (cases q)
  let ?p = "cg_p ec"
  have p0: "0 < ?p" using pr by (simp add: is_prime_def)
  show ?thesis
  proof (cases "y = 0")
    case True
    then show ?thesis using Some q by (simp add: ec_double_def on_curve_def)
  next
    case False
    from oc Some q have rng: "0 \<le> y" "y < ?p" and E: "?p dvd y * y - ((x * x + cg_a ec) * x + cg_b ec)"
      by (simp_all add: on_curve_finite)
    have y: "\<not> ?p dvd y" using rng False by (intro in_range_not_dvd) simp_all
    define l where "l = (3 * x * x + cg_a ec) * finv ?p (2 * y) mod ?p"
    define xr where "xr = (l * l - 2 * x) mod ?p"
    define yr where "yr = (l * (x - xr) - y) mod ?p"
    have "\<not> ?p dvd 2 * y" using is_prime_dvd_mult[OF pr, of 2 y] odd y by blast
    then have ld: "?p dvd l * (2 * y) - (3 * x * x + cg_a ec)" unfolding l_def by (rule slope[OF pr])
    have xd: "?p dvd xr - (l * l - 2 * x)" unfolding xr_def by (rule mod_dvd_diff)
    have yd: "?p dvd yr - (l * (x - xr) - y)" unfolding yr_def by (rule mod_dvd_diff)
    have c: "?p dvd yr * yr - ((xr * xr + cg_a ec) * xr + cg_b ec)"
      using ld E xd yd by algebra
    have r: "0 \<le> xr" "xr < ?p" "0 \<le> yr" "yr < ?p" using p0 by (simp_all add: xr_def yr_def)
    have ed: "ec_double ec P = Some (xr, yr)"
      using False Some q by (simp add: ec_double_def Let_def l_def xr_def yr_def)
    show ?thesis unfolding ed using c r by (simp add: on_curve_finite)
  qed
qed

lemma ec_add_on_curve:
  assumes pr: "is_prime (cg_p ec)" and odd: "\<not> cg_p ec dvd 2"
    and oc: "on_curve ec P" and oc': "on_curve ec R"
  shows "on_curve ec (ec_add ec P R)"
proof (cases P)
  case None
  then show ?thesis using oc' by (simp add: ec_add_def)
next
  case (Some q)
  note P = Some
  show ?thesis
  proof (cases R)
    case None
    then show ?thesis using oc P by (simp add: ec_add_def)
  next
    case (Some r)
    obtain xa ya where q: "q = (xa, ya)" by (cases q)
    obtain xb yb where r: "r = (xb, yb)" by (cases r)
    let ?p = "cg_p ec"
    have p0: "0 < ?p" using pr by (simp add: is_prime_def)
    show ?thesis
    proof (cases "xa = xb")
      case True
      show ?thesis
      proof (cases "ya = yb")
        case True
        with \<open>xa = xb\<close> have "ec_add ec P R = ec_double ec P" using P Some q r by (simp add: ec_add_def)
        then show ?thesis using ec_double_on_curve[OF pr odd oc] by simp
      next
        case False
        with \<open>xa = xb\<close> have "ec_add ec P R = None" using P Some q r by (simp add: ec_add_def)
        then show ?thesis by (simp add: on_curve_def)
      qed
    next
      case False
      from oc P q have ra: "0 \<le> xa" "xa < ?p" and Ea: "?p dvd ya * ya - ((xa * xa + cg_a ec) * xa + cg_b ec)"
        by (simp_all add: on_curve_finite)
      from oc' Some r have rb: "0 \<le> xb" "xb < ?p" and Eb: "?p dvd yb * yb - ((xb * xb + cg_a ec) * xb + cg_b ec)"
        by (simp_all add: on_curve_finite)
      have d: "\<not> ?p dvd xb - xa" using in_range_cong_eq[OF rb ra] False by blast
      define l where "l = (yb - ya) * finv ?p (xb - xa) mod ?p"
      define xr where "xr = (l * l - xa - xb) mod ?p"
      define yr where "yr = (l * (xa - xr) - ya) mod ?p"
      have ld: "?p dvd l * (xb - xa) - (yb - ya)" unfolding l_def using d by (rule slope[OF pr])
      have xd: "?p dvd xr - (l * l - xa - xb)" unfolding xr_def by (rule mod_dvd_diff)
      have yd: "?p dvd yr - (l * (xa - xr) - ya)" unfolding yr_def by (rule mod_dvd_diff)
      have "?p dvd (xb - xa) * (yr * yr - ((xr * xr + cg_a ec) * xr + cg_b ec))"
        using ld Ea Eb xd yd by algebra
      then have c: "?p dvd yr * yr - ((xr * xr + cg_a ec) * xr + cg_b ec)"
        using is_prime_dvd_mult[OF pr] d by blast
      have rr: "0 \<le> xr" "xr < ?p" "0 \<le> yr" "yr < ?p" using p0 by (simp_all add: xr_def yr_def)
      have ea: "ec_add ec P R = Some (xr, yr)"
        using False P Some q r by (simp add: ec_add_def Let_def l_def xr_def yr_def)
      show ?thesis unfolding ea using c rr by (simp add: on_curve_finite)
    qed
  qed
qed

lemma ec_mult_on_curve:
  assumes pr: "is_prime (cg_p ec)" and odd: "\<not> cg_p ec dvd 2" and oc: "on_curve ec P"
  shows "on_curve ec (ec_mult ec k P)"
proof (induction k rule: less_induct)
  case (less k)
  show ?case
  proof (cases "k = 0 \<or> k = 1")
    case True
    then show ?thesis using oc by (auto simp: ec_mult.simps[of ec k] on_curve_def)
  next
    case False
    then have k: "k div 2 < k" "k - 1 < k" by simp_all
    show ?thesis
      using False ec_double_on_curve[OF pr odd less.IH[OF k(1)]]
        ec_add_on_curve[OF pr odd less.IH[OF k(2)] oc]
      by (simp add: ec_mult.simps[of ec k])
  qed
qed

text \<open>Where the addition is associative, the multiple computed along the binary expansion
  is the sum of \<open>k\<close> copies.\<close>

lemma ec_mult_one: "ec_mult ec (Suc 0) P = P"
  by (subst ec_mult.simps) simp

lemma ec_mult_even: "1 \<le> j \<Longrightarrow> ec_mult ec (2 * j) P = ec_double ec (ec_mult ec j P)"
  by (subst ec_mult.simps) simp

lemma ec_mult_odd: "1 \<le> j \<Longrightarrow> ec_mult ec (2 * j + 1) P = ec_add ec (ec_mult ec (2 * j) P) P"
  by (subst ec_mult.simps) simp

lemma ec_add_infinity_right: "ec_add ec A None = A"
  by (cases A) (auto simp: ec_add_def)

lemma ec_double_is_add: "ec_double ec A = ec_add ec A A"
  by (cases A) (auto simp: ec_add_def ec_double_def)

lemma ec_times_on_curve:
  assumes pr: "is_prime (cg_p ec)" and odd: "\<not> cg_p ec dvd 2" and oc: "on_curve ec P"
  shows "on_curve ec (ec_times ec k P)"
proof (induction k)
  case 0
  show ?case by (simp add: on_curve_def)
next
  case (Suc k)
  show ?case using ec_add_on_curve[OF pr odd Suc oc] by simp
qed

lemma ec_times_add:
  assumes pr: "is_prime (cg_p ec)" and odd: "\<not> cg_p ec dvd 2" and oc: "on_curve ec P"
    and assoc: "\<And>A B C. on_curve ec A \<Longrightarrow> on_curve ec B \<Longrightarrow> on_curve ec C
                  \<Longrightarrow> ec_add ec (ec_add ec A B) C = ec_add ec A (ec_add ec B C)"
  shows "ec_times ec (m + n) P = ec_add ec (ec_times ec m P) (ec_times ec n P)"
proof (induction n)
  case 0
  show ?case by (simp add: ec_add_infinity_right)
next
  case (Suc n)
  note t = ec_times_on_curve[OF pr odd oc]
  have "ec_times ec (m + Suc n) P = ec_add ec (ec_add ec (ec_times ec m P) (ec_times ec n P)) P"
    using Suc by simp
  also have "\<dots> = ec_add ec (ec_times ec m P) (ec_add ec (ec_times ec n P) P)"
    by (rule assoc[OF t t oc])
  finally show ?case by simp
qed

lemma ec_mult_repeated_addition:
  assumes pr: "is_prime (cg_p ec)" and odd: "\<not> cg_p ec dvd 2" and oc: "on_curve ec P"
    and assoc: "\<And>A B C. on_curve ec A \<Longrightarrow> on_curve ec B \<Longrightarrow> on_curve ec C
                  \<Longrightarrow> ec_add ec (ec_add ec A B) C = ec_add ec A (ec_add ec B C)"
  shows "ec_mult ec k P = ec_times ec k P"
proof (induction k rule: less_induct)
  case (less k)
  show ?case
  proof (cases "k = 0 \<or> k = 1")
    case True
    then show ?thesis by (auto simp: ec_mult.simps[of ec 0] ec_mult_one ec_add_def)
  next
    case False
    then have k2: "2 \<le> k" by simp
    show ?thesis
    proof (cases "even k")
      case True
      then obtain j where j: "k = 2 * j" by (elim evenE)
      with k2 have j1: "1 \<le> j" "j < k" by simp_all
      have "ec_mult ec k P = ec_double ec (ec_times ec j P)"
        unfolding j using ec_mult_even[OF j1(1)] less.IH[OF j1(2)] by simp
      also have "\<dots> = ec_add ec (ec_times ec j P) (ec_times ec j P)" by (rule ec_double_is_add)
      also have "\<dots> = ec_times ec (j + j) P" using ec_times_add[OF pr odd oc assoc] by simp
      finally show ?thesis using j by (simp add: mult_2)
    next
      case False
      then obtain j where j: "k = 2 * j + 1" by (elim oddE)
      with k2 have j1: "1 \<le> j" "2 * j < k" by simp_all
      have "ec_mult ec k P = ec_add ec (ec_times ec (2 * j) P) P"
        unfolding j using ec_mult_odd[OF j1(1)] less.IH[OF j1(2)] by simp
      then show ?thesis using j by simp
    qed
  qed
qed

section \<open>Jacobian doubling and addition on representatives\<close>

text \<open>\<^verbatim>\<open>_double_jac\<close> maps a representative of a point of the curve to a representative of
  its double, and \<^verbatim>\<open>_add_jac\<close> two representatives to one of the sum, provided an operand
  with \<open>Z = 0\<close> is a proper point; the results are proper again.\<close>

lemma double_jac_tangent:
  assumes pr: "is_prime (cg_p ec)" and odd: "\<not> cg_p ec dvd 2"
    and rep: "represents ec (X, Y, Z) (Some (x, y))" and y: "\<not> cg_p ec dvd y"
  shows "represents ec (double_jac ec (X, Y, Z)) (ec_double ec (Some (x, y)))"
proof -
  let ?p = "cg_p ec"
  let ?a = "cg_a ec"
  define l where "l = (3 * x * x + ?a) * finv ?p (2 * y) mod ?p"
  define xr where "xr = (l * l - 2 * x) mod ?p"
  from rep have z: "\<not> ?p dvd Z" and rx: "?p dvd x * (Z * Z) - X" and ry: "?p dvd y * (Z * Z * Z) - Y"
    by (simp_all add: represents_finite)
  have y0: "y \<noteq> 0" using y by auto
  have "\<not> ?p dvd 2 * y" using is_prime_dvd_mult[OF pr, of 2 y] odd y by blast
  then have ld: "?p dvd l * (2 * y) - (3 * x * x + ?a)" unfolding l_def by (rule slope[OF pr])
  have xd: "?p dvd xr - (l * l - 2 * x)" unfolding xr_def by (rule mod_dvd_diff)
  have Y: "\<not> ?p dvd Y"
  proof
    assume "?p dvd Y"
    with ry have "?p dvd y * (Z * Z * Z)" by algebra
    then have "?p dvd y \<or> ?p dvd Z * Z * Z" by (rule is_prime_dvd_mult[OF pr])
    then show False using y z is_prime_dvd_mult3[OF pr, of Z Z Z] by blast
  qed
  have g1: "\<not> ?p dvd 2 * Y * Z" using is_prime_dvd_mult3[OF pr, of 2 Y Z] odd Y z by blast
  have g2: "?p dvd (l * l - 2 * x) * ((2 * Y * Z) * (2 * Y * Z))
              - ((3 * X * X + ?a * (Z * Z) * (Z * Z)) * (3 * X * X + ?a * (Z * Z) * (Z * Z)) - 2 * (4 * X * (Y * Y)))"
    using ld rx ry by algebra
  have g3: "?p dvd (l * (x - xr) - y) * ((2 * Y * Z) * (2 * Y * Z) * (2 * Y * Z))
              - ((3 * X * X + ?a * (Z * Z) * (Z * Z))
                   * (4 * X * (Y * Y) - ((3 * X * X + ?a * (Z * Z) * (Z * Z)) * (3 * X * X + ?a * (Z * Z) * (Z * Z)) - 2 * (4 * X * (Y * Y))))
                 - 8 * (Y * Y) * (Y * Y))"
    using ld rx ry xd by algebra
  define Xn where "Xn = (3 * X * X + ?a * (Z * Z) * (Z * Z)) * (3 * X * X + ?a * (Z * Z) * (Z * Z)) - 2 * (4 * X * (Y * Y))"
  define Yn where "Yn = (3 * X * X + ?a * (Z * Z) * (Z * Z)) * (4 * X * (Y * Y) - Xn) - 8 * (Y * Y) * (Y * Y)"
  have r: "represents ec (Xn, Yn, 2 * Y * Z) (Some (l * l - 2 * x, l * (x - xr) - y))"
    using g1 g2 g3 unfolding Xn_def Yn_def by (simp only: represents_finite) simp
  have dj: "double_jac ec (X, Y, Z) = (Xn mod ?p, Yn mod ?p, 2 * Y * Z mod ?p)"
    by (simp add: double_jac_def Let_def Xn_def Yn_def)
  have ed: "ec_double ec (Some (x, y)) = Some (xr, (l * (x - xr) - y) mod ?p)"
    using y0 by (simp add: ec_double_def Let_def l_def xr_def)
  show ?thesis unfolding dj ed
    by (rule represents_cong[OF r mod_dvd_diff mod_dvd_diff mod_dvd_diff xd mod_dvd_diff])
qed

lemma double_jac_raw:
  "double_jac ec (X, Y, Z) =
     (((3 * X * X + cg_a ec * (Z * Z) * (Z * Z)) * (3 * X * X + cg_a ec * (Z * Z) * (Z * Z)) - 2 * (4 * X * (Y * Y))) mod cg_p ec,
      ((3 * X * X + cg_a ec * (Z * Z) * (Z * Z))
          * (4 * X * (Y * Y) - ((3 * X * X + cg_a ec * (Z * Z) * (Z * Z)) * (3 * X * X + cg_a ec * (Z * Z) * (Z * Z)) - 2 * (4 * X * (Y * Y))))
        - 8 * (Y * Y) * (Y * Y)) mod cg_p ec,
      2 * Y * Z mod cg_p ec)"
  by (simp add: double_jac_def Let_def)

lemma represents_proper: "represents ec J (Some q) \<Longrightarrow> proper ec J"
  by (cases J; cases q) (auto simp: represents_def proper_def)

lemma double_jac_two_torsion:
  assumes pr: "is_prime (cg_p ec)"
    and ns: "\<not> cg_p ec dvd 4 * cg_a ec * cg_a ec * cg_a ec + 27 * cg_b ec * cg_b ec"
    and rep: "represents ec (X, Y, Z) (Some (x, 0))" and oc: "on_curve ec (Some (x, 0))"
  shows "represents ec (double_jac ec (X, Y, Z)) None" and "proper ec (double_jac ec (X, Y, Z))"
proof -
  let ?p = "cg_p ec"
  let ?a = "cg_a ec"
  define W where "W = 3 * X * X + ?a * (Z * Z) * (Z * Z)"
  define Xn where "Xn = W * W - 2 * (4 * X * (Y * Y))"
  define Yn where "Yn = W * (4 * X * (Y * Y) - Xn) - 8 * (Y * Y) * (Y * Y)"
  have dj: "double_jac ec (X, Y, Z) = (Xn mod ?p, Yn mod ?p, 2 * Y * Z mod ?p)"
    by (simp add: double_jac_raw Xn_def Yn_def W_def)
  from rep have z: "\<not> ?p dvd Z" and rx: "?p dvd x * (Z * Z) - X" and Y: "?p dvd Y"
    by (simp_all add: represents_finite)
  from oc have "?p dvd 0 * 0 - ((x * x + ?a) * x + cg_b ec)" by (simp only: on_curve_finite)
  then have E: "?p dvd (x * x + ?a) * x + cg_b ec" by algebra
  have "?p dvd 2 * Y * Z" using Y by simp
  then have z0: "2 * Y * Z mod ?p = 0" by (simp add: dvd_eq_mod_eq_0)
  show "represents ec (double_jac ec (X, Y, Z)) None" unfolding dj using z0 by (simp add: represents_def)
  have w: "\<not> ?p dvd W"
  proof
    assume "?p dvd W"
    then have "?p dvd (3 * x * x + ?a) * ((Z * Z) * (Z * Z))" using rx unfolding W_def by algebra
    then have "?p dvd 3 * x * x + ?a \<or> ?p dvd (Z * Z) * (Z * Z)" by (rule is_prime_dvd_mult[OF pr])
    moreover have "\<not> ?p dvd (Z * Z) * (Z * Z)"
      using is_prime_dvd_mult[OF pr, of "Z * Z" "Z * Z"] is_prime_dvd_mult[OF pr, of Z Z] z by blast
    ultimately have "?p dvd 3 * x * x + ?a" by blast
    with E have "?p dvd 4 * ?a * ?a * ?a + 27 * cg_b ec * cg_b ec" by algebra
    with ns show False ..
  qed
  have x': "\<not> ?p dvd Xn mod ?p"
  proof
    assume "?p dvd Xn mod ?p"
    then have "?p dvd Xn" by (simp add: dvd_mod_iff)
    then have "?p dvd W * W" using Y unfolding Xn_def by algebra
    then show False using is_prime_dvd_mult[OF pr, of W W] w by blast
  qed
  have mx: "?p dvd Xn mod ?p - Xn" and my: "?p dvd Yn mod ?p - Yn" by (rule mod_dvd_diff)+
  have y': "?p dvd (Yn mod ?p) * (Yn mod ?p) - (Xn mod ?p) * (Xn mod ?p) * (Xn mod ?p)"
  proof -
    have "?p dvd - (2 * (4 * X * (Y * Y)))" using Y by simp
    then have a: "?p dvd Xn - W * W" by (simp add: Xn_def)
    have "?p dvd W * (4 * X * (Y * Y)) - 8 * (Y * Y) * (Y * Y)" using Y by simp
    moreover have "Yn + W * Xn = W * (4 * X * (Y * Y)) - 8 * (Y * Y) * (Y * Y)"
      by (simp add: Yn_def algebra_simps)
    ultimately have b: "?p dvd Yn + W * Xn" by simp
    from a b mx my show ?thesis by algebra
  qed
  show "proper ec (double_jac ec (X, Y, Z))" unfolding dj using x' y' by (simp add: proper_iff)
qed

lemma double_jac_infinity:
  assumes pr: "is_prime (cg_p ec)" and ppr: "proper ec (X, Y, 0)"
  shows "represents ec (double_jac ec (X, Y, 0)) None" and "proper ec (double_jac ec (X, Y, 0))"
proof -
  let ?p = "cg_p ec"
  define Xn where "Xn = 3 * X * X * (3 * X * X) - 2 * (4 * X * (Y * Y))"
  define Yn where "Yn = 3 * X * X * (4 * X * (Y * Y) - Xn) - 8 * (Y * Y) * (Y * Y)"
  have dj: "double_jac ec (X, Y, 0) = (Xn mod ?p, Yn mod ?p, 0)"
    by (simp add: double_jac_raw Xn_def Yn_def)
  from ppr have x: "\<not> ?p dvd X" and c: "?p dvd Y * Y - X * X * X" by (simp_all add: proper_iff)
  show "represents ec (double_jac ec (X, Y, 0)) None" unfolding dj by (simp add: represents_def)
  have a: "?p dvd Xn - (X * X) * (X * X)" using c unfolding Xn_def by algebra
  have b: "?p dvd Yn - (X * X * X) * (X * X * X)" using c a unfolding Yn_def by algebra
  have mx: "?p dvd Xn mod ?p - Xn" and my: "?p dvd Yn mod ?p - Yn" by (rule mod_dvd_diff)+
  have x': "\<not> ?p dvd Xn mod ?p"
  proof
    assume "?p dvd Xn mod ?p"
    then have "?p dvd Xn" by (simp add: dvd_mod_iff)
    with a have "?p dvd (X * X) * (X * X)" by algebra
    then show False
      using is_prime_dvd_mult[OF pr, of "X * X" "X * X"] is_prime_dvd_mult[OF pr, of X X] x by blast
  qed
  have y': "?p dvd (Yn mod ?p) * (Yn mod ?p) - (Xn mod ?p) * (Xn mod ?p) * (Xn mod ?p)"
    using a b mx my by algebra
  show "proper ec (double_jac ec (X, Y, 0))" unfolding dj using x' y' by (simp add: proper_iff)
qed

lemma double_jac_represents:
  assumes pr: "is_prime (cg_p ec)" and odd: "\<not> cg_p ec dvd 2"
    and ns: "\<not> cg_p ec dvd 4 * cg_a ec * cg_a ec * cg_a ec + 27 * cg_b ec * cg_b ec"
    and rep: "represents ec J P" and ppr: "proper ec J" and oc: "on_curve ec P"
  shows "represents ec (double_jac ec J) (ec_double ec P)" and "proper ec (double_jac ec J)"
proof -
  obtain X Y Z where J: "J = (X, Y, Z)" by (cases J)
  have "represents ec (double_jac ec J) (ec_double ec P) \<and> proper ec (double_jac ec J)"
  proof (cases P)
    case None
    with rep J have Z: "Z = 0" by (simp add: represents_def)
    show ?thesis
      using double_jac_infinity[OF pr, of X Y] ppr None J Z by (simp add: ec_double_def)
  next
    case (Some q)
    obtain x y where q: "q = (x, y)" by (cases q)
    show ?thesis
    proof (cases "y = 0")
      case True
      show ?thesis
        using double_jac_two_torsion[OF pr ns, of X Y Z x] rep oc Some q J True
        by (simp add: ec_double_def)
    next
      case False
      from oc Some q have "0 \<le> y" "y < cg_p ec" by (simp_all add: on_curve_finite)
      then have y: "\<not> cg_p ec dvd y" using False by (intro in_range_not_dvd) simp_all
      have r: "represents ec (double_jac ec (X, Y, Z)) (ec_double ec (Some (x, y)))"
        using rep Some q J by (intro double_jac_tangent[OF pr odd _ y]) simp
      then obtain q' where q': "ec_double ec (Some (x, y)) = Some q'"
        using False by (simp add: ec_double_def Let_def)
      show ?thesis using r represents_proper[of ec "double_jac ec (X, Y, Z)" q'] q' Some q J by simp
    qed
  qed
  then show "represents ec (double_jac ec J) (ec_double ec P)" and "proper ec (double_jac ec J)"
    by simp_all
qed

lemma is_prime_not_dvd_mult:
  assumes "is_prime p" and "\<not> p dvd a" and "\<not> p dvd b"
  shows "\<not> p dvd a * b"
  using is_prime_dvd_mult[OF assms(1), of a b] assms(2,3) by blast

lemma add_jac_doubling_branch:
  assumes "QX * (RZ * RZ) mod cg_p ec = RX * (QZ * QZ) mod cg_p ec"
    and "QY * (RZ * RZ * RZ) mod cg_p ec = RY * (QZ * QZ * QZ) mod cg_p ec"
  shows "add_jac ec (QX, QY, QZ) (RX, RY, RZ) = double_jac ec (QX, QY, QZ)"
  using assms by (simp add: add_jac_def double_jac_def Let_def)

lemma add_jac_general_branch:
  assumes "\<not> (QX * (RZ * RZ) mod cg_p ec = RX * (QZ * QZ) mod cg_p ec
              \<and> QY * (RZ * RZ * RZ) mod cg_p ec = RY * (QZ * QZ * QZ) mod cg_p ec)"
    and "QZ \<noteq> 0" and "RZ \<noteq> 0"
  shows "add_jac ec (QX, QY, QZ) (RX, RY, RZ) =
     (let M = QX * (RZ * RZ); N = RX * (QZ * QZ); T = QY * (RZ * RZ * RZ); U = RY * (QZ * QZ * QZ);
          W = U - T; V = N - M;
          X = (W * W - V * V * V - 2 * (M * (V * V))) mod cg_p ec
      in (X, (W * (M * (V * V) - X) - T * (V * V * V)) mod cg_p ec, V * QZ * RZ mod cg_p ec))"
proof -
  have nc: "(QX * (RZ * RZ) mod cg_p ec = RX * (QZ * QZ) mod cg_p ec
              \<and> QY * (RZ * RZ * RZ) mod cg_p ec = RY * (QZ * QZ * QZ) mod cg_p ec) = False"
    using assms(1) by simp
  show ?thesis
    using assms(2,3) by (simp only: add_jac_def Let_def prod.case nc if_False) simp
qed

lemma add_jac_finite:
  assumes pr: "is_prime (cg_p ec)" and odd: "\<not> cg_p ec dvd 2"
    and ns: "\<not> cg_p ec dvd 4 * cg_a ec * cg_a ec * cg_a ec + 27 * cg_b ec * cg_b ec"
    and repa: "represents ec (Xa, Ya, Za) (Some (xa, ya))"
    and repb: "represents ec (Xb, Yb, Zb) (Some (xb, yb))"
    and oca: "on_curve ec (Some (xa, ya))" and ocb: "on_curve ec (Some (xb, yb))"
  shows "represents ec (add_jac ec (Xa, Ya, Za) (Xb, Yb, Zb)) (ec_add ec (Some (xa, ya)) (Some (xb, yb)))
         \<and> proper ec (add_jac ec (Xa, Ya, Za) (Xb, Yb, Zb))"
proof -
  let ?p = "cg_p ec"
  from repa have za: "\<not> ?p dvd Za" and rxa: "?p dvd xa * (Za * Za) - Xa" and rya: "?p dvd ya * (Za * Za * Za) - Ya"
    by (simp_all add: represents_finite)
  from repb have zb: "\<not> ?p dvd Zb" and rxb: "?p dvd xb * (Zb * Zb) - Xb" and ryb: "?p dvd yb * (Zb * Zb * Zb) - Yb"
    by (simp_all add: represents_finite)
  from oca have ra: "0 \<le> xa" "xa < ?p" "0 \<le> ya" "ya < ?p" by (simp_all add: on_curve_finite)
  from ocb have rb: "0 \<le> xb" "xb < ?p" "0 \<le> yb" "yb < ?p" by (simp_all add: on_curve_finite)
  have za0: "Za \<noteq> 0" and zb0: "Zb \<noteq> 0" using za zb by auto
  define M where "M = Xa * (Zb * Zb)"
  define N where "N = Xb * (Za * Za)"
  define T where "T = Ya * (Zb * Zb * Zb)"
  define U where "U = Yb * (Za * Za * Za)"
  define c where "c = Za * Zb"
  have c: "\<not> ?p dvd c" unfolding c_def using za zb by (rule is_prime_not_dvd_mult[OF pr])
  have c2: "\<not> ?p dvd c * c" using c c by (rule is_prime_not_dvd_mult[OF pr])
  have c3: "\<not> ?p dvd c * c * c" using c2 c by (rule is_prime_not_dvd_mult[OF pr])
  have m: "?p dvd M - xa * (c * c)" using rxa unfolding M_def c_def by algebra
  have n: "?p dvd N - xb * (c * c)" using rxb unfolding N_def c_def by algebra
  have t: "?p dvd T - ya * (c * c * c)" using rya unfolding T_def c_def by algebra
  have u: "?p dvd U - yb * (c * c * c)" using ryb unfolding U_def c_def by algebra
  have v: "?p dvd (N - M) - (xb - xa) * (c * c)" using m n by algebra
  have w: "?p dvd (U - T) - (yb - ya) * (c * c * c)" using t u by algebra
  have xeq: "M mod ?p = N mod ?p \<longleftrightarrow> xa = xb"
  proof
    assume "M mod ?p = N mod ?p"
    then have "N mod ?p = M mod ?p" by simp
    then have "?p dvd N - M" by (simp only: mod_eq_dvd_iff)
    with v have "?p dvd (xb - xa) * (c * c)" by algebra
    then have "?p dvd xb - xa" using is_prime_dvd_mult[OF pr] c2 by blast
    then show "xa = xb" using in_range_cong_eq[OF rb(1,2) ra(1,2)] by simp
  next
    assume "xa = xb"
    with v have "?p dvd N - M" by simp
    then have "N mod ?p = M mod ?p" by (simp only: mod_eq_dvd_iff)
    then show "M mod ?p = N mod ?p" by simp
  qed
  have yeq: "T mod ?p = U mod ?p \<longleftrightarrow> ya = yb"
  proof
    assume "T mod ?p = U mod ?p"
    then have "U mod ?p = T mod ?p" by simp
    then have "?p dvd U - T" by (simp only: mod_eq_dvd_iff)
    with w have "?p dvd (yb - ya) * (c * c * c)" by algebra
    then have "?p dvd yb - ya" using is_prime_dvd_mult[OF pr] c3 by blast
    then show "ya = yb" using in_range_cong_eq[OF rb(3,4) ra(3,4)] by simp
  next
    assume "ya = yb"
    with w have "?p dvd U - T" by simp
    then have "U mod ?p = T mod ?p" by (simp only: mod_eq_dvd_iff)
    then show "T mod ?p = U mod ?p" by simp
  qed
  show ?thesis
  proof (cases "xa = xb \<and> ya = yb")
    case True
    then have "M mod ?p = N mod ?p" "T mod ?p = U mod ?p" using xeq yeq by simp_all
    then have aj: "add_jac ec (Xa, Ya, Za) (Xb, Yb, Zb) = double_jac ec (Xa, Ya, Za)"
      unfolding M_def N_def T_def U_def by (rule add_jac_doubling_branch)
    have ea: "ec_add ec (Some (xa, ya)) (Some (xb, yb)) = ec_double ec (Some (xa, ya))"
      using True by (simp add: ec_add_def)
    show ?thesis unfolding aj ea
      using double_jac_represents[OF pr odd ns repa represents_proper[OF repa] oca] by simp
  next
    case False
    then have nc: "\<not> (Xa * (Zb * Zb) mod ?p = Xb * (Za * Za) mod ?p
                      \<and> Ya * (Zb * Zb * Zb) mod ?p = Yb * (Za * Za * Za) mod ?p)"
      using xeq yeq unfolding M_def N_def T_def U_def by blast
    define W where "W = U - T"
    define V where "V = N - M"
    define Xn where "Xn = W * W - V * V * V - 2 * (M * (V * V))"
    define Xr where "Xr = Xn mod ?p"
    define Yn where "Yn = W * (M * (V * V) - Xr) - T * (V * V * V)"
    define Zn where "Zn = V * Za * Zb"
    have aj: "add_jac ec (Xa, Ya, Za) (Xb, Yb, Zb) = (Xr, Yn mod ?p, Zn mod ?p)"
      unfolding add_jac_general_branch[OF nc za0 zb0]
      by (simp add: Let_def M_def N_def T_def U_def W_def V_def Xn_def Xr_def Yn_def Zn_def)
    have mx: "?p dvd Xr - Xn" unfolding Xr_def by (rule mod_dvd_diff)
    have my: "?p dvd Yn mod ?p - Yn" by (rule mod_dvd_diff)
    have v': "?p dvd V - (xb - xa) * (c * c)" using v unfolding V_def .
    have w': "?p dvd W - (yb - ya) * (c * c * c)" using w unfolding W_def .
    show ?thesis
    proof (cases "xa = xb")
      case True
      with False have yne: "ya \<noteq> yb" by simp
      have ea: "ec_add ec (Some (xa, ya)) (Some (xb, yb)) = None"
        using True yne by (simp add: ec_add_def)
      have V: "?p dvd V" using v' True by simp
      then have "?p dvd Zn" unfolding Zn_def by simp
      then have zr: "Zn mod ?p = 0" by (simp add: dvd_eq_mod_eq_0)
      have "\<not> ?p dvd yb - ya" using in_range_cong_eq[OF rb(3,4) ra(3,4)] yne by blast
      then have nw: "\<not> ?p dvd (yb - ya) * (c * c * c)" using c3 by (rule is_prime_not_dvd_mult[OF pr])
      have W: "\<not> ?p dvd W"
      proof
        assume "?p dvd W"
        with w' have "?p dvd (yb - ya) * (c * c * c)" by algebra
        with nw show False ..
      qed
      have a: "?p dvd Xn - W * W"
      proof -
        have "Xn - W * W = - (V * (V * V + 2 * (M * V)))" by (simp add: Xn_def algebra_simps)
        then show ?thesis using V by simp
      qed
      have b: "?p dvd Yn + W * Xr"
      proof -
        have "Yn + W * Xr = V * (W * (M * V) - T * (V * V))" by (simp add: Yn_def algebra_simps)
        then show ?thesis using V by simp
      qed
      have x': "\<not> ?p dvd Xr"
      proof
        assume "?p dvd Xr"
        with mx a have "?p dvd W * W" by algebra
        then show False using is_prime_dvd_mult[OF pr, of W W] W by blast
      qed
      have y': "?p dvd (Yn mod ?p) * (Yn mod ?p) - Xr * Xr * Xr"
        using a b mx my by algebra
      show ?thesis unfolding aj ea using zr x' y' by (simp add: represents_def proper_iff)
    next
      case False
      have d: "\<not> ?p dvd xb - xa" using in_range_cong_eq[OF rb(1,2) ra(1,2)] False by blast
      define l where "l = (yb - ya) * finv ?p (xb - xa) mod ?p"
      define xr where "xr = (l * l - xa - xb) mod ?p"
      define yr where "yr = (l * (xa - xr) - ya) mod ?p"
      have ld: "?p dvd l * (xb - xa) - (yb - ya)" unfolding l_def using d by (rule slope[OF pr])
      have xd: "?p dvd xr - (l * l - xa - xb)" unfolding xr_def by (rule mod_dvd_diff)
      have yd: "?p dvd yr - (l * (xa - xr) - ya)" unfolding yr_def by (rule mod_dvd_diff)
      have ea: "ec_add ec (Some (xa, ya)) (Some (xb, yb)) = Some (xr, yr)"
        using False by (simp add: ec_add_def Let_def l_def xr_def yr_def)
      have nv: "\<not> ?p dvd (xb - xa) * (c * c)" using d c2 by (rule is_prime_not_dvd_mult[OF pr])
      have V: "\<not> ?p dvd V"
      proof
        assume "?p dvd V"
        with v' have "?p dvd (xb - xa) * (c * c)" by algebra
        with nv show False ..
      qed
      have zn: "?p dvd Zn - V * c" unfolding Zn_def c_def by (simp add: algebra_simps)
      have z': "\<not> ?p dvd Zn mod ?p"
        using is_prime_not_dvd_mult[OF pr V c] zn by (simp add: dvd_mod_iff Zn_def c_def algebra_simps)
      have lw: "?p dvd l * (V * c) - W" using ld v' w' by algebra
      have gx: "?p dvd xr * ((V * c) * (V * c)) - Xn"
        using lw v' m n xd unfolding Xn_def by algebra
      have gy: "?p dvd yr * ((V * c) * (V * c) * (V * c)) - Yn"
        using lw v' m t gx mx yd unfolding Yn_def by algebra
      have r: "represents ec (Xn, Yn, V * c) (Some (xr, yr))"
        using gx gy is_prime_not_dvd_mult[OF pr V c] by (simp add: represents_finite)
      have r': "represents ec (Xr, Yn mod ?p, Zn mod ?p) (Some (xr, yr))"
      proof (rule represents_cong[OF r mx my])
        show "?p dvd Zn mod ?p - V * c"
        proof -
          have "?p dvd Zn mod ?p - Zn" by (rule mod_dvd_diff)
          with zn show ?thesis by algebra
        qed
      qed simp_all
      show ?thesis unfolding aj ea using r' represents_proper[OF r'] by simp
    qed
  qed
qed

text \<open>Over any other prime \<^verbatim>\<open>INFJ\<close> is neutral for a finite operand.\<close>

lemma add_jac_INFJ:
  assumes pr: "is_prime (cg_p ec)" and p7: "cg_p ec \<noteq> 7" and z: "\<not> cg_p ec dvd QZ"
  shows "add_jac ec (QX, QY, QZ) INFJ = (QX, QY, QZ)" and "add_jac ec INFJ (QX, QY, QZ) = (QX, QY, QZ)"
proof -
  let ?p = "cg_p ec"
  have p0: "0 < ?p" using pr by (simp add: is_prime_def)
  have z0: "QZ \<noteq> 0" using z by auto
  have "\<not> ?p dvd 7"
  proof
    assume "?p dvd 7"
    moreover have "is_prime 7" by code_simp
    ultimately have "?p = 1 \<or> ?p = 7" using p0 by (intro is_prime_divisors) simp_all
    then show False using p7 pr by (auto simp: is_prime_def)
  qed
  then have "\<not> ?p dvd 7 * (QZ * QZ)"
    using is_prime_dvd_mult[OF pr, of 7 "QZ * QZ"] is_prime_dvd_mult[OF pr, of QZ QZ] z by blast
  then have n: "\<not> (7 * (QZ * QZ) mod ?p = 0 \<and> 0 * (QZ * QZ * QZ) mod ?p = 0)"
    by (simp add: dvd_eq_mod_eq_0)
  show "add_jac ec (QX, QY, QZ) INFJ = (QX, QY, QZ)"
    unfolding INFJ_def using z0 n by (rule add_jac_right_infinity)
  show "add_jac ec INFJ (QX, QY, QZ) = (QX, QY, QZ)"
    unfolding INFJ_def using z0 n by (rule add_jac_left_infinity)
qed

lemma add_jac_represents:
  assumes pr: "is_prime (cg_p ec)" and odd: "\<not> cg_p ec dvd 2"
    and ns: "\<not> cg_p ec dvd 4 * cg_a ec * cg_a ec * cg_a ec + 27 * cg_b ec * cg_b ec"
    and repa: "represents ec Ja Pa" and ppa: "proper ec Ja" and oca: "on_curve ec Pa"
    and repb: "represents ec Jb Pb" and ppb: "proper ec Jb" and ocb: "on_curve ec Pb"
  shows "represents ec (add_jac ec Ja Jb) (ec_add ec Pa Pb)" and "proper ec (add_jac ec Ja Jb)"
proof -
  let ?p = "cg_p ec"
  obtain Xa Ya Za where Ja: "Ja = (Xa, Ya, Za)" by (cases Ja)
  obtain Xb Yb Zb where Jb: "Jb = (Xb, Yb, Zb)" by (cases Jb)
  have "represents ec (add_jac ec Ja Jb) (ec_add ec Pa Pb) \<and> proper ec (add_jac ec Ja Jb)"
  proof (cases Pa)
    case None
    note Pa = None
    from repa Ja Pa have Za: "Za = 0" by (simp add: represents_def)
    from ppa Ja Za have xa: "\<not> ?p dvd Xa" by (simp add: proper_iff)
    show ?thesis
    proof (cases Pb)
      case None
      from repb Jb None have Zb: "Zb = 0" by (simp add: represents_def)
      have aj: "add_jac ec Ja Jb = double_jac ec Ja"
        unfolding Ja Jb Za Zb by (rule add_jac_doubling_branch) simp_all
      show ?thesis
        using double_jac_infinity[OF pr, of Xa Ya] ppa Ja Za Pa None aj by (simp add: ec_add_def)
    next
      case (Some q)
      obtain xb yb where q: "q = (xb, yb)" by (cases q)
      from repb Jb Some q have zb: "\<not> ?p dvd Zb" by (simp add: represents_finite)
      then have zb0: "Zb \<noteq> 0" by auto
      have "\<not> ?p dvd Xa * (Zb * Zb)"
        using xa is_prime_not_dvd_mult[OF pr zb zb] by (rule is_prime_not_dvd_mult[OF pr])
      then have "\<not> (Xa * (Zb * Zb) mod ?p = 0 \<and> Ya * (Zb * Zb * Zb) mod ?p = 0)"
        by (simp add: dvd_eq_mod_eq_0)
      then have aj: "add_jac ec Ja Jb = Jb"
        unfolding Ja Jb Za by (rule add_jac_left_infinity[OF zb0])
      show ?thesis using aj repb ppb Pa by (simp add: ec_add_def)
    qed
  next
    case (Some q)
    note Pa = Some
    obtain xa ya where q: "q = (xa, ya)" by (cases q)
    from repa Ja Pa q have za: "\<not> ?p dvd Za" by (simp add: represents_finite)
    then have za0: "Za \<noteq> 0" by auto
    show ?thesis
    proof (cases Pb)
      case None
      from repb Jb None have Zb: "Zb = 0" by (simp add: represents_def)
      from ppb Jb Zb have xb: "\<not> ?p dvd Xb" by (simp add: proper_iff)
      have "\<not> ?p dvd Xb * (Za * Za)"
        using xb is_prime_not_dvd_mult[OF pr za za] by (rule is_prime_not_dvd_mult[OF pr])
      then have "\<not> (Xb * (Za * Za) mod ?p = 0 \<and> Yb * (Za * Za * Za) mod ?p = 0)"
        by (simp add: dvd_eq_mod_eq_0)
      then have aj: "add_jac ec Ja Jb = Ja"
        unfolding Ja Jb Zb by (rule add_jac_right_infinity[OF za0])
      show ?thesis using aj repa ppa Pa None by (simp add: ec_add_def)
    next
      case (Some r)
      obtain xb yb where r: "r = (xb, yb)" by (cases r)
      show ?thesis
        using add_jac_finite[OF pr odd ns, of Xa Ya Za xa ya Xb Yb Zb xb yb] repa repb oca ocb
        unfolding Ja Jb Pa Some q r by simp
    qed
  qed
  then show "represents ec (add_jac ec Ja Jb) (ec_add ec Pa Pb)" and "proper ec (add_jac ec Ja Jb)"
    by simp_all
qed

lemma mod_inv_prime:
  assumes pr: "is_prime p" and a: "\<not> p dvd a"
  shows "\<exists>i. mod_inv a p = Inr i \<and> p dvd a * i - 1"
proof -
  have p1: "1 < p" using pr by (simp add: is_prime_def)
  define j where "j = finv p a"
  have jr: "0 \<le> j" "j < p" using p1 by (simp_all add: j_def finv_def)
  have jd: "p dvd a * j - 1" unfolding j_def using pr a by (rule finv_inverse)
  then have "a * j mod p = 1 mod p" by (simp only: mod_eq_dvd_iff)
  then have j1: "a * j mod p = 1" using p1 by simp
  have "j \<noteq> 0" using j1 by auto
  then have "j \<in> set [1..p - 1]" using jr by simp
  then have "find (\<lambda>i. a * i mod p = 1) [1..p - 1] \<noteq> None" using j1 by (auto simp: find_None_iff)
  then obtain i where f: "find (\<lambda>i. a * i mod p = 1) [1..p - 1] = Some i" by blast
  then have "a * i mod p = 1" by (auto simp: find_Some_iff)
  then have "a * i mod p = 1 mod p" using p1 by simp
  then have "p dvd a * i - 1" by (simp only: mod_eq_dvd_iff)
  then show ?thesis using f by (simp add: mod_inv_def)
qed

lemma represents_aff_from_jac:
  assumes pr: "is_prime (cg_p ec)" and rep: "represents ec J P" and oc: "on_curve ec P"
  shows "aff_from_jac ec J = Inr (affine_of P)"
proof -
  let ?p = "cg_p ec"
  obtain X Y Z where J: "J = (X, Y, Z)" by (cases J)
  show ?thesis
  proof (cases P)
    case None
    then show ?thesis using rep J by (simp add: represents_def aff_from_jac_def affine_of_def)
  next
    case (Some q)
    obtain x y where q: "q = (x, y)" by (cases q)
    from rep J Some q have z: "\<not> ?p dvd Z" and rx: "?p dvd x * (Z * Z) - X" and ry: "?p dvd y * (Z * Z * Z) - Y"
      by (simp_all add: represents_finite)
    from oc Some q have r: "0 \<le> x" "x < ?p" "0 \<le> y" "y < ?p" by (simp_all add: on_curve_finite)
    have z0: "Z \<noteq> 0" using z by auto
    have z2: "\<not> ?p dvd Z * Z" using z z by (rule is_prime_not_dvd_mult[OF pr])
    have z3: "\<not> ?p dvd Z * Z * Z" using z2 z by (rule is_prime_not_dvd_mult[OF pr])
    from mod_inv_prime[OF pr z2] obtain i2 where i2: "mod_inv (Z * Z) ?p = Inr i2" "?p dvd Z * Z * i2 - 1"
      by blast
    from mod_inv_prime[OF pr z3] obtain i3 where i3: "mod_inv (Z * Z * Z) ?p = Inr i3" "?p dvd Z * Z * Z * i3 - 1"
      by blast
    have "?p dvd X * i2 - x" using rx i2(2) by algebra
    then have "X * i2 mod ?p = x mod ?p" by (simp only: mod_eq_dvd_iff)
    then have ex: "X * i2 mod ?p = x" using r by simp
    have "?p dvd Y * i3 - y" using ry i3(2) by algebra
    then have "Y * i3 mod ?p = y mod ?p" by (simp only: mod_eq_dvd_iff)
    then have ey: "Y * i3 mod ?p = y" using r by simp
    show ?thesis using z0 i2(1) i3(1) ex ey J Some q
      by (simp add: aff_from_jac_def Let_def affine_of_def)
  qed
qed

section \<open>The table of \<^verbatim>\<open>multiples\<close>\<close>

lemma ec_mult_infinity: "ec_mult ec k None = None"
proof (induction k rule: less_induct)
  case (less k)
  show ?case
  proof (cases "k = 0 \<or> k = 1")
    case True
    then show ?thesis by (auto simp: ec_mult.simps[of ec k])
  next
    case False
    then have k: "k div 2 < k" "k - 1 < k" by simp_all
    show ?thesis using False less.IH[OF k(1)] less.IH[OF k(2)]
      by (simp add: ec_mult.simps[of ec k] ec_double_def ec_add_def)
  qed
qed

lemma double_jac_of_infinity: "represents ec J None \<Longrightarrow> represents ec (double_jac ec J) None"
  by (cases J) (simp add: represents_def double_jac_def Let_def)

lemma add_jac_of_infinities:
  assumes "represents ec Ja None" and "represents ec Jb None"
  shows "represents ec (add_jac ec Ja Jb) None"
proof -
  obtain Xa Ya Za where Ja: "Ja = (Xa, Ya, Za)" by (cases Ja)
  obtain Xb Yb Zb where Jb: "Jb = (Xb, Yb, Zb)" by (cases Jb)
  from assms Ja Jb have z: "Za = 0" "Zb = 0" by (simp_all add: represents_def)
  from add_jac_both_infinity[of ec Xa Ya Xb Yb] obtain X Y where "add_jac ec (Xa, Ya, 0) (Xb, Yb, 0) = (X, Y, 0)"
    by blast
  then show ?thesis using Ja Jb z by (simp add: represents_def)
qed

lemma table_entries_finite:
  assumes pr: "is_prime (cg_p ec)" and odd: "\<not> cg_p ec dvd 2"
    and ns: "\<not> cg_p ec dvd 4 * cg_a ec * cg_a ec * cg_a ec + 27 * cg_b ec * cg_b ec"
    and rep: "represents ec Q P" and ppq: "proper ec Q" and oc: "on_curve ec P"
    and t1: "T ! 1 = Q"
    and ev: "\<forall>k. 1 \<le> k \<and> 2 * k < n \<longrightarrow> T ! (2 * k) = double_jac ec (T ! k)"
    and od: "\<forall>k. 1 \<le> k \<and> 2 * k + 1 < n \<longrightarrow> T ! (2 * k + 1) = add_jac ec (T ! (2 * k)) Q"
  shows "1 \<le> k \<Longrightarrow> k < n \<Longrightarrow> represents ec (T ! k) (ec_mult ec k P) \<and> proper ec (T ! k)"
proof (induction k rule: less_induct)
  case (less k)
  show ?case
  proof (cases "k = 1")
    case True
    then show ?thesis using rep ppq t1 by (simp add: ec_mult_one)
  next
    case False
    with less.prems have k2: "2 \<le> k" by simp
    show ?thesis
    proof (cases "even k")
      case True
      then obtain j where j: "k = 2 * j" by (elim evenE)
      with k2 have j1: "1 \<le> j" "j < k" "j < n" using less.prems by simp_all
      have ih: "represents ec (T ! j) (ec_mult ec j P) \<and> proper ec (T ! j)"
        using less.IH[OF j1(2) j1(1) j1(3)] .
      have tk: "T ! k = double_jac ec (T ! j)" using ev j j1 less.prems by simp
      have mk: "ec_mult ec k P = ec_double ec (ec_mult ec j P)"
        unfolding j using j1(1) by (rule ec_mult_even)
      show ?thesis unfolding tk mk
        using double_jac_represents[OF pr odd ns _ _ ec_mult_on_curve[OF pr odd oc]] ih by blast
    next
      case False
      then obtain j where j: "k = 2 * j + 1" by (elim oddE)
      with k2 have j1: "1 \<le> j" "2 * j < k" "2 * j < n" "1 \<le> 2 * j" using less.prems by simp_all
      have ih: "represents ec (T ! (2 * j)) (ec_mult ec (2 * j) P) \<and> proper ec (T ! (2 * j))"
        using less.IH[OF j1(2) j1(4) j1(3)] .
      have tk: "T ! k = add_jac ec (T ! (2 * j)) Q" using od j j1 less.prems by simp
      have mk: "ec_mult ec k P = ec_add ec (ec_mult ec (2 * j) P) P"
        unfolding j using j1(1) by (rule ec_mult_odd)
      show ?thesis unfolding tk mk
        using add_jac_represents[OF pr odd ns _ _ ec_mult_on_curve[OF pr odd oc] rep ppq oc] ih by blast
    qed
  qed
qed

lemma table_entries_infinite:
  assumes rep: "represents ec Q None"
    and t1: "T ! 1 = Q"
    and ev: "\<forall>k. 1 \<le> k \<and> 2 * k < n \<longrightarrow> T ! (2 * k) = double_jac ec (T ! k)"
    and od: "\<forall>k. 1 \<le> k \<and> 2 * k + 1 < n \<longrightarrow> T ! (2 * k + 1) = add_jac ec (T ! (2 * k)) Q"
  shows "1 \<le> k \<Longrightarrow> k < n \<Longrightarrow> represents ec (T ! k) None"
proof (induction k rule: less_induct)
  case (less k)
  show ?case
  proof (cases "k = 1")
    case True
    then show ?thesis using rep t1 by simp
  next
    case False
    with less.prems have k2: "2 \<le> k" by simp
    show ?thesis
    proof (cases "even k")
      case True
      then obtain j where j: "k = 2 * j" by (elim evenE)
      with k2 have j1: "1 \<le> j" "j < k" "j < n" using less.prems by simp_all
      have tk: "T ! k = double_jac ec (T ! j)" using ev j j1 less.prems by simp
      show ?thesis unfolding tk using less.IH[OF j1(2) j1(1) j1(3)] by (rule double_jac_of_infinity)
    next
      case False
      then obtain j where j: "k = 2 * j + 1" by (elim oddE)
      with k2 have j1: "1 \<le> j" "2 * j < k" "2 * j < n" "1 \<le> 2 * j" using less.prems by simp_all
      have tk: "T ! k = add_jac ec (T ! (2 * j)) Q" using od j j1 less.prems by simp
      show ?thesis unfolding tk using less.IH[OF j1(2) j1(4) j1(3)] rep by (rule add_jac_of_infinities)
    qed
  qed
qed

text \<open>C8, amended. Over a prime \<open>p\<close>, for every Jacobian triple \<open>Q\<close> that represents a point
  \<open>P\<close> of the curve and every \<open>size \<ge> 2\<close>, \<^verbatim>\<open>multiples(Q, size, ec)\<close> returns a list \<open>T\<close> of
  exactly \<open>size\<close> Jacobian points whose \<open>k\<close>-th entry, \<open>0 \<le> k < size\<close>, is a Jacobian
  representative of \<open>k \<cdot> P\<close>, which \<^verbatim>\<open>_aff_from_jac\<close> maps to it; the list is built by
  \<open>T[0] = INFJ\<close>, \<open>T[1] = Q\<close>, and for every \<open>k \<ge> 1\<close> within it \<open>T[2k]\<close> the double of \<open>T[k]\<close>
  and \<open>T[2k+1]\<close> the sum \<open>T[2k] + Q\<close>. For \<open>size < 2\<close> the call raises.\<close>

theorem multiples_entries:
  assumes init: "CurveGroup_init p a b = Inr ec" and pr: "is_prime p"
    and rep: "represents ec Q P" and oc: "on_curve ec P"
  shows "(2 \<le> sz \<longrightarrow>
           (\<exists>T. multiples Q sz ec = Inr T \<and> length T = nat sz
              \<and> (\<forall>k. k < nat sz \<longrightarrow>
                     represents ec (T ! k) (ec_mult ec k P)
                     \<and> aff_from_jac ec (T ! k) = Inr (affine_of (ec_mult ec k P)))
              \<and> T ! 0 = INFJ \<and> T ! 1 = Q
              \<and> (\<forall>k. 1 \<le> k \<and> 2 * k < nat sz \<longrightarrow> T ! (2 * k) = double_jac ec (T ! k))
              \<and> (\<forall>k. 1 \<le> k \<and> 2 * k + 1 < nat sz \<longrightarrow> T ! (2 * k + 1) = add_jac ec (T ! (2 * k)) Q)))
         \<and> (sz < 2 \<longrightarrow> multiples Q sz ec = Inl ValueError)"
proof (intro conjI impI)
  assume sz: "2 \<le> sz"
  have p: "cg_p ec = p" using CurveGroup_init_fields(1)[OF init] .
  have pr': "is_prime (cg_p ec)" using pr p by simp
  note ns = CurveGroup_init_nonsingular[OF init]
  from multiples_table[OF sz, of Q ec] obtain T where
    T: "multiples Q sz ec = Inr T" "length T = nat sz" "T ! 0 = INFJ" "T ! 1 = Q"
    and ev: "\<forall>k. 1 \<le> k \<and> 2 * k < nat sz \<longrightarrow> T ! (2 * k) = double_jac ec (T ! k)"
    and od: "\<forall>k. 1 \<le> k \<and> 2 * k + 1 < nat sz \<longrightarrow> T ! (2 * k + 1) = add_jac ec (T ! (2 * k)) Q"
    by blast
  have r: "represents ec (T ! k) (ec_mult ec k P)" if k: "k < nat sz" for k
  proof (cases "k = 0")
    case True
    then show ?thesis using T(3) by (simp add: ec_mult.simps[of ec 0] represents_def INFJ_def)
  next
    case False
    then have k1: "1 \<le> k" by simp
    show ?thesis
    proof (cases P)
      case None
      show ?thesis
        using table_entries_infinite[OF _ T(4) ev od k1 k] rep None by (simp add: ec_mult_infinity)
    next
      case (Some q)
      have "proper ec Q" using rep Some represents_proper by blast
      from table_entries_finite[OF pr' ns(2) ns(1) rep this oc T(4) ev od k1 k]
      show ?thesis by simp
    qed
  qed
  have "represents ec (T ! k) (ec_mult ec k P)
        \<and> aff_from_jac ec (T ! k) = Inr (affine_of (ec_mult ec k P))" if k: "k < nat sz" for k
    using r[OF k] represents_aff_from_jac[OF pr' r[OF k] ec_mult_on_curve[OF pr' ns(2) oc]] by simp
  then show "\<exists>T. multiples Q sz ec = Inr T \<and> length T = nat sz
              \<and> (\<forall>k. k < nat sz \<longrightarrow>
                     represents ec (T ! k) (ec_mult ec k P)
                     \<and> aff_from_jac ec (T ! k) = Inr (affine_of (ec_mult ec k P)))
              \<and> T ! 0 = INFJ \<and> T ! 1 = Q
              \<and> (\<forall>k. 1 \<le> k \<and> 2 * k < nat sz \<longrightarrow> T ! (2 * k) = double_jac ec (T ! k))
              \<and> (\<forall>k. 1 \<le> k \<and> 2 * k + 1 < nat sz \<longrightarrow> T ! (2 * k + 1) = add_jac ec (T ! (2 * k)) Q)"
    using T ev od by blast
next
  assume "sz < 2"
  then show "multiples Q sz ec = Inl ValueError" by (simp add: multiples_def)
qed

theorem multiples_entries_witness:
  "CurveGroup_init 13 0 2 = Inr ec13_19 \<and> is_prime 13
   \<and> represents ec13_19 (1, 9, 1) (Some (1, 9)) \<and> on_curve ec13_19 (Some (1, 9))
   \<and> multiples (1, 9, 1) 5 ec13_19 = Inr [(7, 0, 0), (1, 9, 1), (11, 9, 5), (7, 9, 5), (10, 1, 12)]
   \<and> ec_mult ec13_19 4 (Some (1, 9)) = Some (10, 12)
   \<and> represents ec13_19 (10, 1, 12) (Some (10, 12))
   \<and> aff_from_jac ec13_19 (10, 1, 12) = Inr (10, 12)
   \<and> double_jac ec13_19 (11, 9, 5) = (10, 1, 12)
   \<and> add_jac ec13_19 (11, 9, 5) (1, 9, 1) = (7, 9, 5)
   \<and> multiples (1, 9, 1) 1 ec13_19 = Inl ValueError"
proof -
  have i: "CurveGroup_init 13 0 2 = Inr ec13_19" by code_simp
  have pr: "is_prime 13" by code_simp
  have rep: "represents ec13_19 (1, 9, 1) (Some (1, 9))" by code_simp
  have oc: "on_curve ec13_19 (Some (1, 9))" by code_simp
  have v: "multiples (1, 9, 1) 5 ec13_19 = Inr [(7, 0, 0), (1, 9, 1), (11, 9, 5), (7, 9, 5), (10, 1, 12)]"
    by code_simp
  have m: "ec_mult ec13_19 4 (Some (1, 9)) = Some (10, 12)" by code_simp
  note t = multiples_entries[OF i pr rep oc]
  have s: "(2::int) \<le> 5" by simp
  from t[of 5, THEN conjunct1, rule_format, OF s] v
  have e: "\<forall>k. k < nat 5 \<longrightarrow>
             represents ec13_19 (([(7, 0, 0), (1, 9, 1), (11, 9, 5), (7, 9, 5), (10, 1, 12)] :: JacPoint list) ! k)
               (ec_mult ec13_19 k (Some (1, 9)))
             \<and> aff_from_jac ec13_19 (([(7, 0, 0), (1, 9, 1), (11, 9, 5), (7, 9, 5), (10, 1, 12)] :: JacPoint list) ! k)
                 = Inr (affine_of (ec_mult ec13_19 k (Some (1, 9))))"
    and d: "\<forall>k. 1 \<le> k \<and> 2 * k < nat 5 \<longrightarrow>
             ([(7, 0, 0), (1, 9, 1), (11, 9, 5), (7, 9, 5), (10, 1, 12)] :: JacPoint list) ! (2 * k)
               = double_jac ec13_19 (([(7, 0, 0), (1, 9, 1), (11, 9, 5), (7, 9, 5), (10, 1, 12)] :: JacPoint list) ! k)"
    and c: "\<forall>k. 1 \<le> k \<and> 2 * k + 1 < nat 5 \<longrightarrow>
             ([(7, 0, 0), (1, 9, 1), (11, 9, 5), (7, 9, 5), (10, 1, 12)] :: JacPoint list) ! (2 * k + 1)
               = add_jac ec13_19 (([(7, 0, 0), (1, 9, 1), (11, 9, 5), (7, 9, 5), (10, 1, 12)] :: JacPoint list) ! (2 * k)) (1, 9, 1)"
    by auto
  from e[rule_format, of 4] m
  have r4: "represents ec13_19 (10, 1, 12) (Some (10, 12))"
    and a4: "aff_from_jac ec13_19 (10, 1, 12) = Inr (10, 12)"
    by (simp_all add: affine_of_def)
  from d[rule_format, of 2] have d2: "double_jac ec13_19 (11, 9, 5) = (10, 1, 12)" by simp
  from c[rule_format, of 1] have c1: "add_jac ec13_19 (11, 9, 5) (1, 9, 1) = (7, 9, 5)" by simp
  have s': "(1::int) < 2" by simp
  from t[of 1, THEN conjunct2, rule_format, OF s']
  have x: "multiples (1, 9, 1) 1 ec13_19 = Inl ValueError" .
  show ?thesis using i pr rep oc v m r4 a4 d2 c1 x by simp
qed

text \<open>The recurrence as the claim words it, \<open>T[2k+1] = double(T[k])\<close>, fails at \<open>k = 1\<close> on
  \<^verbatim>\<open>ec13_19\<close> with \<open>Q = (1, 9, 1)\<close>: \<open>T[3]\<close> is \<open>(7, 9, 5)\<close>, with affine image \<open>(6, 6)\<close>, and
  the double of \<open>T[1]\<close> is \<open>(11, 9, 5)\<close>, with affine image \<open>(2, 6)\<close>.\<close>

theorem multiples_recurrence_counterexample:
  "multiples (1, 9, 1) 4 ec13_19 = Inr [(7, 0, 0), (1, 9, 1), (11, 9, 5), (7, 9, 5)]
   \<and> ([(7, 0, 0), (1, 9, 1), (11, 9, 5), (7, 9, 5)] :: JacPoint list) ! (2 * 1 + 1) = (7, 9, 5)
   \<and> double_jac ec13_19 ([(7, 0, 0), (1, 9, 1), (11, 9, 5), (7, 9, 5)] ! 1) = (11, 9, 5)
   \<and> aff_from_jac ec13_19 (7, 9, 5) = Inr (6, 6)
   \<and> aff_from_jac ec13_19 (11, 9, 5) = Inr (2, 6)"
  by code_simp

end
